theory Spec2Isabelle
  imports Main "HOL-Library.Word"
begin

section \<open>The board\<close>

text \<open>
  \<^verbatim>\<open>using board_type = std::array<std::uint8_t, 14>\<close>: a board is a list of
  8-bit cells. The source's array has exactly 14 cells, so the theorems below
  assume \<open>length board = 14\<close>. Indices 0..5 are AlphaCala's pits, 6 its store,
  7..12 the opponent's pits and 13 the opponent's store. Array indices are
  natural numbers here; the source indexes with \<^verbatim>\<open>int\<close> and its behaviour
  is undefined outside 0..13, so every theorem about a pit index assumes it
  below 14.
\<close>

type_synonym u8 = "8 word"
type_synonym board_type = "u8 list"

definition AC_PITS :: "nat list" where
  "AC_PITS = [5, 4, 3, 2, 1, 0]"

definition OPP_PITS :: "nat list" where
  "OPP_PITS = [12, 11, 10, 9, 8, 7]"

text \<open>The number of seeds on the board, as a natural number (no wrap-around).\<close>

definition total :: "board_type \<Rightarrow> nat" where
  "total board = sum_list (map unat board)"

section \<open>Rules engine\<close>

text \<open>\<^verbatim>\<open>int next_pit_index(int pit_index, bool is_ac_turn)\<close>\<close>

definition next_pit_index :: "nat \<Rightarrow> bool \<Rightarrow> nat" where
  "next_pit_index pit_index is_ac_turn =
     (if pit_index = 12 \<and> is_ac_turn then 0
      else if pit_index = 5 \<and> \<not> is_ac_turn then 7
      else (pit_index + 1) mod 14)"

text \<open>
  The sowing loop of \<open>play_move\<close>:
  \<^verbatim>\<open>while (num_seeds > 1) { pit_index = next_pit_index(pit_index, is_ac_move);
      ++board[pit_index]; --num_seeds; }\<close>
  The counter \<open>num_seeds\<close> has the cell type \<^verbatim>\<open>std::uint8_t\<close>; \<open>++\<close> on a
  cell wraps at 256. The loop returns the board and the cursor.
\<close>

function sow_loop :: "bool \<Rightarrow> u8 \<Rightarrow> board_type \<Rightarrow> nat \<Rightarrow> board_type \<times> nat" where
  "sow_loop is_ac_move num_seeds board pit_index =
     (if 1 < num_seeds then
        (let pit_index' = next_pit_index pit_index is_ac_move in
         sow_loop is_ac_move (num_seeds - 1)
           (board[pit_index' := board ! pit_index' + 1]) pit_index')
      else (board, pit_index))"
  by pat_completeness auto
termination
proof (relation "measure (\<lambda>(is_ac_move, num_seeds, board, pit_index). unat num_seeds)")
  show "wf (measure (\<lambda>(is_ac_move, num_seeds, board, pit_index). unat num_seeds))"
    by simp
next
  fix is_ac_move :: bool and num_seeds :: u8 and board :: board_type
    and pit_index x :: nat
  assume "1 < num_seeds"
  then have "1 < unat num_seeds"
    by (simp add: word_less_nat_alt)
  moreover from this have "num_seeds \<noteq> 0"
    by auto
  ultimately have "unat (num_seeds - 1) < unat num_seeds"
    by (simp add: unat_minus_one)
  then show "((is_ac_move, num_seeds - 1,
        board[x := board ! x + 1], x),
       (is_ac_move, num_seeds, board, pit_index))
      \<in> measure (\<lambda>(is_ac_move, num_seeds, board, pit_index). unat num_seeds)"
    by simp
qed

declare sow_loop.simps [simp del]

text \<open>
  What \<open>play_move\<close> does with the last seed, once the cursor stands on the
  landing pit (the source from \<^verbatim>\<open>if (pit_index == 6 || pit_index == 13)\<close> to
  the end of the function). The landing pit is not a store once the first
  branch is passed, so \<^verbatim>\<open>12 - pit_index\<close> is not negative for a cursor
  below 14. The final \<^verbatim>\<open>++board[pit_index]\<close> is reached from both failed tests.
  The compound assignment \<^verbatim>\<open>board[store_index] += 1 + board[facing_index]\<close>
  computes in \<^verbatim>\<open>int\<close> and stores the result modulo 256.
\<close>

definition land_last_seed :: "bool \<Rightarrow> board_type \<Rightarrow> nat \<Rightarrow> board_type \<times> bool" where
  "land_last_seed is_ac_move board pit_index =
     (if pit_index = 6 \<or> pit_index = 13 then
        (board[pit_index := board ! pit_index + 1], True)
      else if board ! pit_index = 0 then
        (let end_on_ac_side = (pit_index \<le> 5);
             facing_index = 12 - pit_index
         in if 0 < board ! facing_index \<and> end_on_ac_side = is_ac_move then
              (let store_index = (if is_ac_move then 6 else 13)
               in ((board[store_index := board ! store_index + (1 + board ! facing_index)])
                     [facing_index := 0], False))
            else (board[pit_index := board ! pit_index + 1], False))
      else (board[pit_index := board ! pit_index + 1], False))"

text \<open>
  \<^verbatim>\<open>bool play_move(board_type &board, int pit_index)\<close>: the mutated board is
  returned with the result.
\<close>

definition play_move :: "board_type \<Rightarrow> nat \<Rightarrow> board_type \<times> bool" where
  "play_move board pit_index =
     (let is_ac_move = (pit_index \<le> 5);
          num_seeds = board ! pit_index;
          (board', pit_index') =
             sow_loop is_ac_move num_seeds (board[pit_index := 0]) pit_index
      in land_last_seed is_ac_move board' (next_pit_index pit_index' is_ac_move))"

text \<open>
  The state of \<open>play_move\<close> just before the last seed is placed: the board
  after the sowing loop, and the pit the cursor has then advanced to.
\<close>

definition sown_board :: "board_type \<Rightarrow> nat \<Rightarrow> board_type" where
  "sown_board board pit_index =
     fst (sow_loop (pit_index \<le> 5) (board ! pit_index) (board[pit_index := 0]) pit_index)"

definition landing_pit :: "board_type \<Rightarrow> nat \<Rightarrow> nat" where
  "landing_pit board pit_index =
     next_pit_index
       (snd (sow_loop (pit_index \<le> 5) (board ! pit_index) (board[pit_index := 0]) pit_index))
       (pit_index \<le> 5)"

section \<open>Search engine\<close>

text \<open>
  The evaluation \<^verbatim>\<open>board[6] - board[13]\<close>: both cells are promoted to
  \<^verbatim>\<open>int\<close>, so the difference does not wrap. Every evaluation of the search
  lies between -1785 and 1785, far inside the range of \<^verbatim>\<open>int\<close>, so
  evaluations and the bounds alpha and beta are unbounded integers here.
\<close>

definition store_diff :: "board_type \<Rightarrow> int" where
  "store_diff board = uint (board ! 6) - uint (board ! 13)"

text \<open>
  The two loops of \<open>minimax\<close> over the pits of the side to move. \<open>rec\<close> is the
  recursive call at \<open>depth - 1\<close> with a null \<open>move_out\<close>; the loop state is
  \<open>alpha\<close> (or \<open>beta\<close>), \<open>best_eval\<close> and \<open>best_move\<close>, and \<^verbatim>\<open>break\<close>
  returns it at once.
\<close>

fun ac_loop :: "(board_type \<Rightarrow> bool \<Rightarrow> int \<Rightarrow> int \<Rightarrow> int) \<Rightarrow> board_type \<Rightarrow> nat list
    \<Rightarrow> int \<Rightarrow> int \<Rightarrow> int \<Rightarrow> int \<Rightarrow> int \<times> int" where
  "ac_loop rec board [] alpha beta best_eval best_move = (best_eval, best_move)"
| "ac_loop rec board (i # pits) alpha beta best_eval best_move =
     (if board ! i = 0 then ac_loop rec board pits alpha beta best_eval best_move
      else
        (let (board_copy, go_again) = play_move board i;
             tmp_eval = rec board_copy go_again alpha beta;
             best_eval' = (if tmp_eval > best_eval then tmp_eval else best_eval);
             best_move' = (if tmp_eval > best_eval then int i else best_move);
             alpha' = max alpha tmp_eval
         in if beta \<le> alpha' then (best_eval', best_move')
            else ac_loop rec board pits alpha' beta best_eval' best_move'))"

fun opp_loop :: "(board_type \<Rightarrow> bool \<Rightarrow> int \<Rightarrow> int \<Rightarrow> int) \<Rightarrow> board_type \<Rightarrow> nat list
    \<Rightarrow> int \<Rightarrow> int \<Rightarrow> int \<Rightarrow> int \<Rightarrow> int \<times> int" where
  "opp_loop rec board [] alpha beta best_eval best_move = (best_eval, best_move)"
| "opp_loop rec board (i # pits) alpha beta best_eval best_move =
     (if board ! i = 0 then opp_loop rec board pits alpha beta best_eval best_move
      else
        (let (board_copy, go_again) = play_move board i;
             tmp_eval = rec board_copy (\<not> go_again) alpha beta;
             best_eval' = (if tmp_eval < best_eval then tmp_eval else best_eval);
             best_move' = (if tmp_eval < best_eval then int i else best_move);
             beta' = min beta tmp_eval
         in if beta' \<le> alpha then (best_eval', best_move')
            else opp_loop rec board pits alpha beta' best_eval' best_move'))"

text \<open>
  The evaluation returned when no move was found: the other side's pits are
  added to that side's store, in the evaluation only.
\<close>

definition sweep_eval :: "board_type \<Rightarrow> bool \<Rightarrow> int" where
  "sweep_eval board is_ac_turn =
     (if is_ac_turn then fold (\<lambda>i eval. eval - uint (board ! i)) OPP_PITS (store_diff board)
      else fold (\<lambda>i eval. eval + uint (board ! i)) AC_PITS (store_diff board))"

text \<open>
  \<^verbatim>\<open>int minimax(const board_type &board, bool is_ac_turn, int depth,
      int *move_out, int alpha = -99, int beta = 99)\<close>.
  The output parameter is modelled by the content of the cell it points to:
  \<open>None\<close> is the null pointer, \<open>Some v\<close> a cell that holds \<open>v\<close> before the
  call (any value: the caller in \<open>main\<close> leaves it uninitialised). The result
  is the returned evaluation and the cell after the call. The board is a
  \<^verbatim>\<open>const\<close> reference and every move is played on a copy, so no board is
  returned. The depth counts down to the base case \<open>depth == 0\<close>; it ranges
  over the natural numbers, the non-negative values of the source's \<^verbatim>\<open>int\<close>.
\<close>

fun minimax :: "board_type \<Rightarrow> bool \<Rightarrow> nat \<Rightarrow> int option \<Rightarrow> int \<Rightarrow> int \<Rightarrow> int \<times> int option" where
  "minimax board is_ac_turn 0 move_out alpha beta = (store_diff board, move_out)"
| "minimax board is_ac_turn (Suc depth) move_out alpha beta =
     (let (best_eval, best_move) =
            (if is_ac_turn
             then ac_loop (\<lambda>b t a be. fst (minimax b t depth None a be))
                    board AC_PITS alpha beta (- 99) (- 1)
             else opp_loop (\<lambda>b t a be. fst (minimax b t depth None a be))
                    board OPP_PITS alpha beta 99 (- 1));
          move_out' = (case move_out of None \<Rightarrow> None | Some _ \<Rightarrow> Some best_move)
      in if best_move = - 1 then (sweep_eval board is_ac_turn, move_out')
         else (best_eval, move_out'))"

section \<open>Notions used to state the properties of the search\<close>

text \<open>
  The child scores a loop of \<open>minimax\<close> computes, in scan order: the pairs
  (pit, \<open>tmp_eval\<close>) of the non-empty pits the loop visits before it ends or
  breaks. The loops above return the best of these scores; the lists make the
  scores themselves visible.
\<close>

fun ac_scores :: "(board_type \<Rightarrow> bool \<Rightarrow> int \<Rightarrow> int \<Rightarrow> int) \<Rightarrow> board_type \<Rightarrow> nat list
    \<Rightarrow> int \<Rightarrow> int \<Rightarrow> (nat \<times> int) list" where
  "ac_scores rec board [] alpha beta = []"
| "ac_scores rec board (i # pits) alpha beta =
     (if board ! i = 0 then ac_scores rec board pits alpha beta
      else
        (let (board_copy, go_again) = play_move board i;
             tmp_eval = rec board_copy go_again alpha beta;
             alpha' = max alpha tmp_eval
         in (i, tmp_eval) #
            (if beta \<le> alpha' then [] else ac_scores rec board pits alpha' beta)))"

fun opp_scores :: "(board_type \<Rightarrow> bool \<Rightarrow> int \<Rightarrow> int \<Rightarrow> int) \<Rightarrow> board_type \<Rightarrow> nat list
    \<Rightarrow> int \<Rightarrow> int \<Rightarrow> (nat \<times> int) list" where
  "opp_scores rec board [] alpha beta = []"
| "opp_scores rec board (i # pits) alpha beta =
     (if board ! i = 0 then opp_scores rec board pits alpha beta
      else
        (let (board_copy, go_again) = play_move board i;
             tmp_eval = rec board_copy (\<not> go_again) alpha beta;
             beta' = min beta tmp_eval
         in (i, tmp_eval) #
            (if beta' \<le> alpha then [] else opp_scores rec board pits alpha beta')))"

text \<open>
  The running best of a list of scores: a later score replaces the best one
  only when it is strictly greater (\<open>first_max\<close>) or strictly smaller
  (\<open>first_min\<close>).
\<close>

fun first_max :: "(nat \<times> int) list \<Rightarrow> int \<Rightarrow> int \<Rightarrow> int \<times> int" where
  "first_max [] best_eval best_move = (best_eval, best_move)"
| "first_max ((i, tmp_eval) # scores) best_eval best_move =
     (if tmp_eval > best_eval then first_max scores tmp_eval (int i)
      else first_max scores best_eval best_move)"

fun first_min :: "(nat \<times> int) list \<Rightarrow> int \<Rightarrow> int \<Rightarrow> int \<times> int" where
  "first_min [] best_eval best_move = (best_eval, best_move)"
| "first_min ((i, tmp_eval) # scores) best_eval best_move =
     (if tmp_eval < best_eval then first_min scores tmp_eval (int i)
      else first_min scores best_eval best_move)"

text \<open>
  Plain fixed-depth minimax, without pruning, as the specification describes
  the search: the store difference at depth 0, the sweep evaluation when the
  side to move has no non-empty pit, and otherwise the greatest (AlphaCala) or
  least (opponent) value of the positions after each legal move, where the
  side to move stays the same after an extra turn and changes otherwise.
\<close>

fun plain_minimax :: "board_type \<Rightarrow> bool \<Rightarrow> nat \<Rightarrow> int" where
  "plain_minimax board is_ac_turn 0 = store_diff board"
| "plain_minimax board is_ac_turn (Suc depth) =
     (let moves = filter (\<lambda>i. board ! i \<noteq> 0) (if is_ac_turn then AC_PITS else OPP_PITS);
          child_values = map (\<lambda>i. plain_minimax (fst (play_move board i))
                     (if is_ac_turn then snd (play_move board i)
                      else \<not> snd (play_move board i)) depth) moves
      in if moves = [] then sweep_eval board is_ac_turn
         else if is_ac_turn then Max (set child_values)
         else Min (set child_values))"

text \<open>
  The values plain minimax gives to the moves of the side to move: the pairs
  (pit, value of the position after the move) of the non-empty pits, in the
  scan order of the pit tables.
\<close>

definition plain_scores :: "board_type \<Rightarrow> bool \<Rightarrow> nat \<Rightarrow> (nat \<times> int) list" where
  "plain_scores board is_ac_turn depth =
     map (\<lambda>i. (i, plain_minimax (fst (play_move board i))
                  (if is_ac_turn then snd (play_move board i)
                   else \<not> snd (play_move board i)) depth))
       (filter (\<lambda>i. board ! i \<noteq> 0) (if is_ac_turn then AC_PITS else OPP_PITS))"

text \<open>
  \<open>first_best is_ac_turn scores eval move\<close>: in the list of scores, \<open>move\<close>
  is the first pit whose score is the best one, \<open>eval\<close>. Every entry before
  it is strictly worse and no entry after it is better, where better means
  greater for AlphaCala and smaller for the opponent.
\<close>

definition first_best :: "bool \<Rightarrow> (nat \<times> int) list \<Rightarrow> int \<Rightarrow> int \<Rightarrow> bool" where
  "first_best is_ac_turn scores eval move =
     (\<exists>pre i post. scores = pre @ (i, eval) # post \<and> move = int i
        \<and> (\<forall>x\<in>set pre. if is_ac_turn then snd x < eval else eval < snd x)
        \<and> (\<forall>x\<in>set post. if is_ac_turn then snd x \<le> eval else eval \<le> snd x))"

text \<open>
  The three-way relation between the value \<open>v\<close> of a position and the result
  \<open>r\<close> of a search of it with the window \<open>alpha\<close>, \<open>beta\<close>: the result is
  exact inside the window and on the same side of the window outside.
\<close>

definition within_window :: "int \<Rightarrow> int \<Rightarrow> int \<Rightarrow> int \<Rightarrow> bool" where
  "within_window alpha beta v r =
     ((v \<le> alpha \<longrightarrow> r \<le> alpha) \<and> (alpha < v \<and> v < beta \<longrightarrow> r = v)
      \<and> (beta \<le> v \<longrightarrow> beta \<le> r))"

section \<open>Basic facts about the definitions\<close>

lemma sow_loop_stop:
  "\<not> 1 < num_seeds \<Longrightarrow> sow_loop is_ac_move num_seeds board pit_index = (board, pit_index)"
  by (simp add: sow_loop.simps)

lemma sow_loop_step:
  "1 < num_seeds \<Longrightarrow>
   sow_loop is_ac_move num_seeds board pit_index =
     sow_loop is_ac_move (num_seeds - 1)
       (board[next_pit_index pit_index is_ac_move :=
                board ! next_pit_index pit_index is_ac_move + 1])
       (next_pit_index pit_index is_ac_move)"
  by (subst sow_loop.simps) (simp add: Let_def)

lemma play_move_land:
  "play_move board pit_index =
     land_last_seed (pit_index \<le> 5) (sown_board board pit_index) (landing_pit board pit_index)"
  by (simp add: play_move_def sown_board_def landing_pit_def Let_def split: prod.splits)

lemma ac_loop_all_empty:
  "\<forall>i\<in>set pits. board ! i = 0 \<Longrightarrow>
     ac_loop rec board pits alpha beta best_eval best_move = (best_eval, best_move)"
  by (induction pits) simp_all

lemma opp_loop_all_empty:
  "\<forall>i\<in>set pits. board ! i = 0 \<Longrightarrow>
     opp_loop rec board pits alpha beta best_eval best_move = (best_eval, best_move)"
  by (induction pits) simp_all

lemma sweep_eval_sum:
  "sweep_eval board is_ac_turn =
     (if is_ac_turn then uint (board ! 6) - uint (board ! 13) - (\<Sum>i = 7..12. uint (board ! i))
      else uint (board ! 6) - uint (board ! 13) + (\<Sum>i = 0..5. uint (board ! i)))"
proof -
  have a: "{7..12::nat} = {7,8,9,10,11,12}" by auto
  have b: "{0..5::nat} = {0,1,2,3,4,5}" by auto
  show ?thesis
    by (simp add: sweep_eval_def store_diff_def AC_PITS_def OPP_PITS_def a b)
qed

section \<open>The search at depth 0 and at a position without a move\<close>

text \<open>
  C6. At depth 0 \<open>minimax\<close> returns \<open>board[6] - board[13]\<close>, whatever the
  board and the turn. It returns before the assignment to \<open>*move_out\<close>, so the
  cell behind \<open>move_out\<close> keeps the value it had before the call: no sentinel
  is written.
\<close>

theorem minimax_depth_zero:
  "minimax board is_ac_turn 0 move_out alpha beta
     = (uint (board ! 6) - uint (board ! 13), move_out)
   \<and> minimax [4,4,4,4,4,4,0,4,4,4,4,4,4,0] True 0 (Some 3) (- 99) 99 = (0, Some 3)"
  by (simp add: store_diff_def)

text \<open>
  C4. When the six pits of the side to move are all empty and the depth is at
  least 1, \<open>minimax\<close> writes the sentinel -1 to a non-null \<open>move_out\<close> and
  returns \<open>board[6] - board[13]\<close> minus the opponent's pits 7..12 when it is
  AlphaCala's turn, plus AlphaCala's pits 0..5 otherwise. The board is an
  argument only: the sweep exists in the evaluation alone.
\<close>

theorem minimax_no_move:
  assumes "0 < depth"
    and "if is_ac_turn then \<forall>i\<in>{0..5}. board ! i = 0 else \<forall>i\<in>{7..12}. board ! i = 0"
  shows "minimax board is_ac_turn depth move_out alpha beta =
     ((if is_ac_turn
       then uint (board ! 6) - uint (board ! 13) - (\<Sum>i = 7..12. uint (board ! i))
       else uint (board ! 6) - uint (board ! 13) + (\<Sum>i = 0..5. uint (board ! i))),
      (case move_out of None \<Rightarrow> None | Some v \<Rightarrow> Some (- 1)))"
proof -
  from assms(1) obtain d where d: "depth = Suc d"
    by (cases depth) auto
  show ?thesis
  proof (cases is_ac_turn)
    case True
    with assms(2) have "\<forall>i\<in>set AC_PITS. board ! i = 0"
      by (simp add: AC_PITS_def)
    then show ?thesis using True
      by (simp add: d ac_loop_all_empty sweep_eval_sum)
  next
    case False
    with assms(2) have "\<forall>i\<in>set OPP_PITS. board ! i = 0"
      by (simp add: OPP_PITS_def)
    then show ?thesis using False
      by (simp add: d opp_loop_all_empty sweep_eval_sum)
  qed
qed

theorem minimax_no_move_witness:
  "minimax [0,0,0,0,0,0,5,1,2,0,0,0,0,3] True 3 (Some 4) (- 99) 99 = (- 1, Some (- 1))"
proof -
  have e: "{0..5::nat} = {0,1,2,3,4,5}" "{7..12::nat} = {7,8,9,10,11,12}"
    by auto
  have "if True then \<forall>i\<in>{0..5}. [0,0,0,0,0,0,5,1,2,0,0,0,0,3::u8] ! i = 0
        else \<forall>i\<in>{7..12}. [0,0,0,0,0,0,5,1,2,0,0,0,0,3::u8] ! i = 0"
    by (simp add: e)
  from minimax_no_move [OF _ this, of 3 "Some 4" "- 99" 99] show ?thesis
    by (simp add: e)
qed

section \<open>Single moves\<close>

text \<open>
  C8. A move from a pit that holds exactly one seed sows nothing on the way:
  the board before the last seed is the board with the source pit emptied, the
  landing pit is \<open>next_pit_index\<close> of the source for the mover, and the move is
  the landing rule of every move applied there.
\<close>

theorem play_move_single_seed:
  assumes "board ! pit_index = 1"
  shows "sown_board board pit_index = board[pit_index := 0]
     \<and> landing_pit board pit_index = next_pit_index pit_index (pit_index \<le> 5)
     \<and> play_move board pit_index =
         land_last_seed (pit_index \<le> 5) (board[pit_index := 0])
           (next_pit_index pit_index (pit_index \<le> 5))"
  using assms
  by (simp add: play_move_def sown_board_def landing_pit_def sow_loop_stop Let_def)

theorem play_move_single_seed_witness:
  "play_move [4,4,4,4,4,1,0,4,4,4,4,4,4,7] 5 = ([4,4,4,4,4,0,1,4,4,4,4,4,4,7], True)"
proof -
  have "[4,4,4,4,4,1,0,4,4,4,4,4,4,7::u8] ! 5 = 1"
    by simp
  from play_move_single_seed [OF this] show ?thesis
    by (simp add: next_pit_index_def land_last_seed_def)
qed

section \<open>The sowing loop\<close>

lemma next_pit_index_less: "next_pit_index pit_index is_ac_turn < 14"
  by (simp add: next_pit_index_def)

lemma sow_loop_length:
  "length (fst (sow_loop is_ac_move num_seeds board pit_index)) = length board"
proof (induction is_ac_move num_seeds board pit_index rule: sow_loop.induct)
  case (1 is_ac_move num_seeds board pit_index)
  show ?case
  proof (cases "1 < num_seeds")
    case True
    with 1 show ?thesis by (simp add: sow_loop_step)
  next
    case False
    then show ?thesis by (simp add: sow_loop_stop)
  qed
qed

lemma sow_loop_cursor:
  "pit_index < 14 \<Longrightarrow> snd (sow_loop is_ac_move num_seeds board pit_index) < 14"
proof (induction is_ac_move num_seeds board pit_index rule: sow_loop.induct)
  case (1 is_ac_move num_seeds board pit_index)
  show ?case
  proof (cases "1 < num_seeds")
    case True
    with 1 show ?thesis by (simp add: sow_loop_step next_pit_index_less)
  next
    case False
    with 1 show ?thesis by (simp add: sow_loop_stop)
  qed
qed

lemma unat_pred_gt1: "1 < (n::u8) \<Longrightarrow> unat (n - 1) = unat n - 1 \<and> 1 < unat n"
proof -
  assume "1 < n"
  then have "1 < unat n" by (simp add: word_less_nat_alt)
  moreover from this have "n \<noteq> 0" by auto
  ultimately show ?thesis by (simp add: unat_minus_one)
qed

lemma not_gt1_unat: "\<not> 1 < (n::u8) \<Longrightarrow> unat n \<le> 1"
  by (simp add: word_less_nat_alt)

lemma sow_loop_cursor_funpow:
  "snd (sow_loop is_ac_move num_seeds board pit_index) =
     ((\<lambda>p. next_pit_index p is_ac_move) ^^ (unat num_seeds - 1)) pit_index"
proof (induction is_ac_move num_seeds board pit_index rule: sow_loop.induct)
  case (1 is_ac_move num_seeds board pit_index)
  show ?case
  proof (cases "1 < num_seeds")
    case True
    from unat_pred_gt1 [OF True]
    have k: "unat num_seeds - 1 = Suc (unat (num_seeds - 1) - 1)"
      by arith
    have "snd (sow_loop is_ac_move num_seeds board pit_index) =
        ((\<lambda>p. next_pit_index p is_ac_move) ^^ (unat (num_seeds - 1) - 1))
          (next_pit_index pit_index is_ac_move)"
      using True 1 by (simp add: sow_loop_step)
    also have "\<dots> = ((\<lambda>p. next_pit_index p is_ac_move) ^^ (unat num_seeds - 1)) pit_index"
      by (simp only: k funpow_Suc_right o_apply)
    finally show ?thesis .
  next
    case False
    from not_gt1_unat [OF False] have "unat num_seeds - 1 = 0" by simp
    with False show ?thesis by (simp add: sow_loop_stop)
  qed
qed

lemma sown_board_length: "length (sown_board board pit_index) = length board"
  by (simp add: sown_board_def sow_loop_length)

lemma landing_pit_less: "landing_pit board pit_index < 14"
  by (simp add: landing_pit_def next_pit_index_less)

lemma landing_pit_funpow:
  assumes "board ! pit_index \<noteq> 0"
  shows "landing_pit board pit_index =
    ((\<lambda>p. next_pit_index p (pit_index \<le> 5)) ^^ unat (board ! pit_index)) pit_index"
proof -
  from assms have "unat (board ! pit_index) \<noteq> 0"
    by (simp add: unat_eq_0)
  then obtain k where k: "unat (board ! pit_index) = Suc k"
    by (cases "unat (board ! pit_index)") auto
  show ?thesis
    by (simp add: landing_pit_def sow_loop_cursor_funpow k)
qed

section \<open>The landing rule\<close>

lemma own_side_iff:
  assumes "q < 14" "q \<noteq> 6" "q \<noteq> 13"
  shows "((q \<le> 5) = (pit_index \<le> (5::nat))) =
         (if pit_index \<le> 5 then q \<le> 5 else 7 \<le> q \<and> q \<le> (12::nat))"
  using assms by auto

lemma land_last_seed_pit:
  assumes "length b = 14" "q < 14" "q \<noteq> 6" "q \<noteq> 13"
  shows "let store = (if is_ac_move then 6 else 13);
             after = fst (land_last_seed is_ac_move b q);
             capture_cond = (b ! q = 0 \<and> (q \<le> 5) = is_ac_move \<and> b ! (12 - q) \<noteq> 0);
             captured = (after ! store = b ! store + (1 + b ! (12 - q))
                          \<and> after ! (12 - q) = 0 \<and> after ! q = 0)
         in (captured \<longleftrightarrow> capture_cond)
          \<and> (if capture_cond
              then after = b[store := b ! store + (1 + b ! (12 - q)), 12 - q := 0]
              else after = b[q := b ! q + 1])
          \<and> \<not> snd (land_last_seed is_ac_move b q)"
proof -
  have f: "12 - q < 14" "12 - q \<noteq> q" "12 - q \<noteq> 6" "12 - q \<noteq> 13"
    using assms by auto
  show ?thesis
  proof (cases "b ! q = 0 \<and> (q \<le> 5) = is_ac_move \<and> b ! (12 - q) \<noteq> 0")
    case True
    then show ?thesis using assms f
      by (auto simp add: land_last_seed_def Let_def word_greater_zero_iff)
  next
    case False
    from False show ?thesis using assms f
      by (auto simp add: land_last_seed_def Let_def word_greater_zero_iff)
  qed
qed

section \<open>Seed counts\<close>

lemma total_update:
  "i < length b \<Longrightarrow> total (b[i := v]) + unat (b ! i) = total b + unat v"
  unfolding total_def
proof (induction b arbitrary: i)
  case Nil
  then show ?case by simp
next
  case (Cons a b)
  then show ?case by (cases i) (simp_all add: add.assoc add.left_commute)
qed

lemma cell_le_total: "i < length b \<Longrightarrow> unat (b ! i) \<le> total b"
  using total_update [of i b 0] by simp

lemma two_cells_le_total:
  assumes "i < length b" "j < length b" "i \<noteq> j"
  shows "unat (b ! i) + unat (b ! j) \<le> total b"
proof -
  have "unat (b[i := 0] ! j) \<le> total (b[i := 0])"
    using assms by (intro cell_le_total) simp
  with total_update [OF assms(1), of 0] assms show ?thesis
    by simp
qed

lemma unat_incr: "unat (x + 1 :: u8) = (unat x + 1) mod 256"
  by (simp add: unat_word_ariths)

lemma unat_capture: "unat (s + (1 + f) :: u8) = (unat s + 1 + unat f) mod 256"
  by (simp add: unat_word_ariths mod_simps add.assoc)

lemma unat_u8_less: "unat (x :: u8) < 256"
  using unsigned_less [of x, where ?'a = nat] by simp

lemma total_incr_mod:
  assumes "i < length b"
  shows "total (b[i := b ! i + 1]) mod 256 = (total b + 1) mod 256"
proof (cases "unat (b ! i) + 1 < 256")
  case True
  then have "unat (b ! i + 1) = unat (b ! i) + 1"
    by (simp add: unat_incr)
  with total_update [OF assms, of "b ! i + 1"]
  have "total (b[i := b ! i + 1]) = total b + 1"
    by simp
  then show ?thesis by simp
next
  case False
  with unat_u8_less [of "b ! i"] have x: "unat (b ! i) = 255"
    by linarith
  then have "unat (b ! i + 1) = 0"
    by (simp add: unat_incr)
  with total_update [OF assms, of "b ! i + 1"] x
  have "total b + 1 = total (b[i := b ! i + 1]) + 256"
    by simp
  then show ?thesis by simp
qed

lemma total_incr:
  assumes "i < length b" "total b \<le> 254"
  shows "total (b[i := b ! i + 1]) = total b + 1"
proof -
  from cell_le_total [OF assms(1)] assms(2) have "unat (b ! i) + 1 < 256" by simp
  then have "unat (b ! i + 1) = unat (b ! i) + 1" by (simp add: unat_incr)
  with total_update [OF assms(1), of "b ! i + 1"] show ?thesis by simp
qed

lemma total_capture_mod:
  assumes "s < length b" "f < length b" "s \<noteq> f"
  shows "total (b[s := b ! s + (1 + b ! f), f := 0]) mod 256 = (total b + 1) mod 256"
proof -
  let ?b1 = "b[s := b ! s + (1 + b ! f)]"
  let ?y = "unat (b ! s) + 1 + unat (b ! f)"
  have 1: "total ?b1 + unat (b ! s) = total b + ?y mod 256"
    using total_update [OF assms(1), of "b ! s + (1 + b ! f)"] by (simp add: unat_capture)
  have 2: "total (?b1[f := 0]) + unat (b ! f) = total ?b1"
    using total_update [of f ?b1 0] assms by simp
  show ?thesis
  proof (cases "?y < 256")
    case True
    then have "?y mod 256 = ?y" by simp
    with 1 2 have "total (?b1[f := 0]) = total b + 1" by linarith
    then show ?thesis by simp
  next
    case False
    moreover have "?y < 512"
      using unat_u8_less [of "b ! s"] unat_u8_less [of "b ! f"] by linarith
    ultimately have "?y mod 256 = ?y - 256"
      by (simp add: mod_if)
    with 1 2 False have "total b + 1 = total (?b1[f := 0]) + 256" by linarith
    then show ?thesis by simp
  qed
qed

lemma total_capture:
  assumes "s < length b" "f < length b" "s \<noteq> f" "total b \<le> 254"
  shows "total (b[s := b ! s + (1 + b ! f), f := 0]) = total b + 1"
proof -
  let ?b1 = "b[s := b ! s + (1 + b ! f)]"
  from two_cells_le_total [OF assms(1-3)] assms(4)
  have "unat (b ! s) + 1 + unat (b ! f) < 256" by simp
  then have "unat (b ! s + (1 + b ! f)) = unat (b ! s) + 1 + unat (b ! f)"
    by (simp add: unat_capture)
  then have "total ?b1 + unat (b ! s) = total b + (unat (b ! s) + 1 + unat (b ! f))"
    using total_update [OF assms(1), of "b ! s + (1 + b ! f)"] by simp
  moreover have "total (?b1[f := 0]) + unat (b ! f) = total ?b1"
    using total_update [of f ?b1 0] assms by simp
  ultimately show ?thesis by linarith
qed

lemma sow_loop_total_mod:
  "14 \<le> length board \<Longrightarrow>
   total (fst (sow_loop is_ac_move num_seeds board pit_index)) mod 256 =
     (total board + (unat num_seeds - 1)) mod 256"
proof (induction is_ac_move num_seeds board pit_index rule: sow_loop.induct)
  case (1 is_ac_move num_seeds board pit_index)
  let ?p = "next_pit_index pit_index is_ac_move"
  let ?b = "board[?p := board ! ?p + 1]"
  show ?case
  proof (cases "1 < num_seeds")
    case True
    have p: "?p < length board"
      using next_pit_index_less [of pit_index is_ac_move] "1.prems" by simp
    from "1.IH" [OF True refl] "1.prems"
    have "total (fst (sow_loop is_ac_move (num_seeds - 1) ?b ?p)) mod 256 =
        (total ?b + (unat (num_seeds - 1) - 1)) mod 256"
      by simp
    also have "\<dots> = (total ?b mod 256 + (unat (num_seeds - 1) - 1)) mod 256"
      by (simp add: mod_simps)
    also have "\<dots> = ((total board + 1) mod 256 + (unat (num_seeds - 1) - 1)) mod 256"
      by (simp only: total_incr_mod [OF p])
    also have "\<dots> = (total board + 1 + (unat (num_seeds - 1) - 1)) mod 256"
      by (simp add: mod_simps)
    also have "total board + 1 + (unat (num_seeds - 1) - 1) = total board + (unat num_seeds - 1)"
      using unat_pred_gt1 [OF True] by linarith
    finally show ?thesis
      using True by (simp add: sow_loop_step)
  next
    case False
    from not_gt1_unat [OF False] have "unat num_seeds - 1 = 0" by simp
    with False show ?thesis by (simp add: sow_loop_stop)
  qed
qed

lemma sow_loop_total:
  "14 \<le> length board \<Longrightarrow> total board + (unat num_seeds - 1) \<le> 255 \<Longrightarrow>
   total (fst (sow_loop is_ac_move num_seeds board pit_index)) =
     total board + (unat num_seeds - 1)"
proof (induction is_ac_move num_seeds board pit_index rule: sow_loop.induct)
  case (1 is_ac_move num_seeds board pit_index)
  let ?p = "next_pit_index pit_index is_ac_move"
  let ?b = "board[?p := board ! ?p + 1]"
  show ?case
  proof (cases "1 < num_seeds")
    case True
    have p: "?p < length board"
      using next_pit_index_less [of pit_index is_ac_move] "1.prems" by simp
    note u = unat_pred_gt1 [OF True]
    from u "1.prems"(2) have "total board \<le> 254" by linarith
    from total_incr [OF p this] have t: "total ?b = total board + 1" .
    have "total ?b + (unat (num_seeds - 1) - 1) \<le> 255"
      using t u "1.prems"(2) by linarith
    with "1.IH" [OF True refl] "1.prems"(1)
    have "total (fst (sow_loop is_ac_move (num_seeds - 1) ?b ?p)) =
        total ?b + (unat (num_seeds - 1) - 1)"
      by simp
    also have "\<dots> = total board + (unat num_seeds - 1)"
      using t u by linarith
    finally show ?thesis
      using True by (simp add: sow_loop_step)
  next
    case False
    from not_gt1_unat [OF False] have "unat num_seeds - 1 = 0" by simp
    with False show ?thesis by (simp add: sow_loop_stop)
  qed
qed

lemma land_last_seed_cases:
  assumes "q < 14"
  obtains (incr) "fst (land_last_seed is_ac_move b q) = b[q := b ! q + 1]"
  | (capture) s f where "s < 14" "f < 14" "s \<noteq> f"
      "fst (land_last_seed is_ac_move b q) = b[s := b ! s + (1 + b ! f), f := 0]"
proof (cases "q \<noteq> 6 \<and> q \<noteq> 13 \<and> b ! q = 0 \<and> 0 < b ! (12 - q) \<and> (q \<le> 5) = is_ac_move")
  case True
  let ?s = "if is_ac_move then 6 else 13 :: nat"
  have "?s < 14" "12 - q < 14" "?s \<noteq> 12 - q"
    using True assms by auto
  moreover have "fst (land_last_seed is_ac_move b q) =
      b[?s := b ! ?s + (1 + b ! (12 - q)), 12 - q := 0]"
    using True by (simp add: land_last_seed_def Let_def)
  ultimately show ?thesis by (rule capture)
next
  case False
  then have "fst (land_last_seed is_ac_move b q) = b[q := b ! q + 1]"
    by (auto simp add: land_last_seed_def Let_def)
  then show ?thesis by (rule incr)
qed

lemma land_last_seed_total_mod:
  assumes "length b = 14" "q < 14"
  shows "total (fst (land_last_seed is_ac_move b q)) mod 256 = (total b + 1) mod 256"
  using assms(2)
proof (cases rule: land_last_seed_cases [where is_ac_move = is_ac_move and b = b])
  case incr
  then show ?thesis using assms by (simp add: total_incr_mod)
next
  case (capture s f)
  then show ?thesis using assms by (simp add: total_capture_mod)
qed

lemma land_last_seed_total:
  assumes "length b = 14" "q < 14" "total b \<le> 254"
  shows "total (fst (land_last_seed is_ac_move b q)) = total b + 1"
  using assms(2)
proof (cases rule: land_last_seed_cases [where is_ac_move = is_ac_move and b = b])
  case incr
  then show ?thesis using assms by (simp add: total_incr)
next
  case (capture s f)
  then show ?thesis using assms by (simp add: total_capture)
qed

lemma land_last_seed_length:
  "length (fst (land_last_seed is_ac_move b q)) = length b"
  by (simp add: land_last_seed_def Let_def)

lemma play_move_length: "length (fst (play_move board pit_index)) = length board"
  by (simp add: play_move_land land_last_seed_length sown_board_length)

lemma sown_board_total_mod:
  assumes "length board = 14" "pit_index < 14" "board ! pit_index \<noteq> 0"
  shows "(total (sown_board board pit_index) + 1) mod 256 = total board mod 256"
proof -
  let ?n = "unat (board ! pit_index)"
  let ?b0 = "board[pit_index := 0]"
  have n: "?n - 1 + 1 = ?n"
    using assms(3) by (simp add: unat_gt_0)
  have t0: "total ?b0 + ?n = total board"
    using total_update [of pit_index board 0] assms by simp
  have "total (sown_board board pit_index) mod 256 = (total ?b0 + (?n - 1)) mod 256"
    unfolding sown_board_def using assms by (subst sow_loop_total_mod) simp_all
  then have "(total (sown_board board pit_index) + 1) mod 256 =
      (total ?b0 + (?n - 1) + 1) mod 256"
    by (rule mod_add_cong) simp
  also have "total ?b0 + (?n - 1) + 1 = total board"
    using n t0 by (simp only: add.assoc)
  finally show ?thesis .
qed

lemma sown_board_total:
  assumes "length board = 14" "pit_index < 14" "board ! pit_index \<noteq> 0" "total board \<le> 255"
  shows "total (sown_board board pit_index) + 1 = total board"
proof -
  let ?n = "unat (board ! pit_index)"
  let ?b0 = "board[pit_index := 0]"
  have n: "0 < ?n"
    using assms(3) by (simp add: unat_gt_0)
  have t0: "total ?b0 + ?n = total board"
    using total_update [of pit_index board 0] assms by simp
  then have "total ?b0 + (?n - 1) \<le> 255"
    using assms(4) by linarith
  then have "total (sown_board board pit_index) = total ?b0 + (?n - 1)"
    unfolding sown_board_def using assms by (intro sow_loop_total) simp_all
  with t0 n show ?thesis by linarith
qed

section \<open>Extra turn and capture\<close>

lemma unat_incr_exact: "unat (x :: u8) \<le> 254 \<Longrightarrow> unat (x + 1) = unat x + 1"
  by (simp add: unat_incr)

lemma unat_capture_exact:
  "unat (s :: u8) + unat (f :: u8) \<le> 254 \<Longrightarrow> unat (s + (1 + f)) = unat s + 1 + unat f"
  by (simp add: unat_capture)

lemma sown_board_bound:
  assumes "length board = 14" "pit_index < 14" "board ! pit_index \<noteq> 0" "total board \<le> 255"
  shows "total (sown_board board pit_index) \<le> 254"
  using sown_board_total [OF assms] assms(4) by linarith

text \<open>
  C2. For a legal move, \<open>play_move\<close> returns true exactly when the last seed
  lands on index 6 or 13, where the landing pit is the source advanced by
  \<open>next_pit_index\<close> once for each seed of the source pit. In that case only
  the store changes after the sowing, to its count plus one modulo 256 (the
  cell's \<open>++\<close>): by exactly one whenever the board holds at most 255 seeds.
  In every other case the result is false. The store does not gain one seed
  on every board: see the counterexample.
\<close>

theorem play_move_extra_turn:
  assumes "length board = 14" and "pit_index < 14" and "board ! pit_index \<noteq> 0"
  shows "landing_pit board pit_index =
           ((\<lambda>p. next_pit_index p (pit_index \<le> 5)) ^^ unat (board ! pit_index)) pit_index
     \<and> snd (play_move board pit_index) =
           (landing_pit board pit_index = 6 \<or> landing_pit board pit_index = 13)
     \<and> (if landing_pit board pit_index = 6 \<or> landing_pit board pit_index = 13
        then fst (play_move board pit_index) =
               (sown_board board pit_index)
                 [landing_pit board pit_index :=
                    sown_board board pit_index ! landing_pit board pit_index + 1]
           \<and> (total board \<le> 255 \<longrightarrow>
                unat (fst (play_move board pit_index) ! landing_pit board pit_index) =
                unat (sown_board board pit_index ! landing_pit board pit_index) + 1)
        else \<not> snd (play_move board pit_index))"
proof -
  let ?b = "sown_board board pit_index"
  let ?q = "landing_pit board pit_index"
  have l: "length ?b = 14"
    by (simp add: sown_board_length assms(1))
  have q: "?q < length ?b"
    using landing_pit_less [of board pit_index] l by simp
  have "unat ((?b[?q := ?b ! ?q + 1]) ! ?q) = unat (?b ! ?q) + 1" if "total board \<le> 255"
  proof -
    have "unat (?b ! ?q) \<le> total ?b"
      using q by (rule cell_le_total)
    with sown_board_bound [OF assms that] have "unat (?b ! ?q) \<le> 254"
      by linarith
    then show ?thesis
      using q by (simp add: unat_incr_exact)
  qed
  with landing_pit_funpow [OF assms(3)] show ?thesis
    by (simp add: play_move_land land_last_seed_def Let_def)
qed

theorem play_move_extra_turn_witness:
  "landing_pit [4,4,4,4,4,4,0,4,4,4,4,4,4,0] 2 = 6
   \<and> play_move [4,4,4,4,4,4,0,4,4,4,4,4,4,0] 2 = ([4,4,0,5,5,5,1,4,4,4,4,4,4,0], True)"
proof -
  have s: "sown_board [4,4,4,4,4,4,0,4,4,4,4,4,4,0] 2 = [4,4,0,5,5,5,0,4,4,4,4,4,4,0]"
    by (simp add: sown_board_def sow_loop.simps next_pit_index_def)
  have l: "landing_pit [4,4,4,4,4,4,0,4,4,4,4,4,4,0] 2 = 6"
    by (simp add: landing_pit_def sow_loop.simps next_pit_index_def)
  have "length [4,4,4,4,4,4,0,4,4,4,4,4,4,0::u8] = 14" "(2::nat) < 14"
    "[4,4,4,4,4,4,0,4,4,4,4,4,4,0::u8] ! 2 \<noteq> 0"
    by simp_all
  from play_move_extra_turn [OF this] show ?thesis
    by (simp add: s l prod_eq_iff)
qed

theorem play_move_extra_turn_counterexample:
  "length [0,0,0,0,0,1,255,0,0,0,0,0,0,0::u8] = 14 \<and> (5::nat) < 14
   \<and> [0,0,0,0,0,1,255,0,0,0,0,0,0,0::u8] ! 5 \<noteq> 0
   \<and> landing_pit [0,0,0,0,0,1,255,0,0,0,0,0,0,0] 5 = 6
   \<and> snd (play_move [0,0,0,0,0,1,255,0,0,0,0,0,0,0] 5)
   \<and> unat (sown_board [0,0,0,0,0,1,255,0,0,0,0,0,0,0] 5 ! 6) = 255
   \<and> unat (fst (play_move [0,0,0,0,0,1,255,0,0,0,0,0,0,0] 5) ! 6) = 0"
  by (simp add: play_move_def sown_board_def landing_pit_def sow_loop.simps
      next_pit_index_def land_last_seed_def Let_def)

lemma land_last_seed_pit_exact:
  assumes "length b = 14" "q < 14" "q \<noteq> 6" "q \<noteq> 13" "total b \<le> 254"
  shows "let store = (if is_ac_move then 6 else 13);
             after = fst (land_last_seed is_ac_move b q);
             capture_cond = (b ! q = 0 \<and> (q \<le> 5) = is_ac_move \<and> b ! (12 - q) \<noteq> 0)
         in if capture_cond
            then unat (after ! store) = unat (b ! store) + 1 + unat (b ! (12 - q))
            else unat (after ! q) = unat (b ! q) + 1"
proof -
  let ?s = "if is_ac_move then 6 else 13 :: nat"
  have f: "12 - q < length b" "?s < length b" "?s \<noteq> 12 - q" "q < length b"
    using assms by auto
  have "unat (b ! ?s) + unat (b ! (12 - q)) \<le> total b"
    using f by (intro two_cells_le_total) simp_all
  with assms(5) have c: "unat (b ! ?s + (1 + b ! (12 - q))) =
      unat (b ! ?s) + 1 + unat (b ! (12 - q))"
    by (intro unat_capture_exact) linarith
  have "unat (b ! q) \<le> total b"
    using f(4) by (rule cell_le_total)
  with assms(5) have i: "unat (b ! q + 1) = unat (b ! q) + 1"
    by (intro unat_incr_exact) linarith
  from land_last_seed_pit [OF assms(1-4), of is_ac_move] c i f show ?thesis
    unfolding Let_def by (auto split: if_splits)
qed

text \<open>
  C1. For a legal move whose last seed does not land in a store, a capture
  happens if and only if the landing pit was empty before the last seed, lies
  on the mover's side (index at most 5 for an AlphaCala move, 7..12 for an
  opponent move) and the facing pit \<open>12 - landing\<close> is not empty. In a
  capture the mover's store becomes its count plus 1 plus the facing pit's
  count modulo 256, the facing pit is zeroed and the landing pit stays at zero;
  otherwise only the landing pit changes, to its count plus one modulo 256.
  Whenever the board holds at most 255 seeds nothing wraps: the store gains
  exactly 1 plus the facing pit's count, or the landing pit exactly one seed.
  Counts are those of the board after the sowing loop. The gains are not
  these sums on every board: see the counterexample.
\<close>

theorem play_move_capture:
  assumes "length board = 14" and "pit_index < 14" and "board ! pit_index \<noteq> 0"
    and "landing_pit board pit_index \<noteq> 6" and "landing_pit board pit_index \<noteq> 13"
  shows "let b = sown_board board pit_index;
             q = landing_pit board pit_index;
             store = (if pit_index \<le> 5 then 6 else 13);
             after = fst (play_move board pit_index);
             capture_cond = (b ! q = 0
                \<and> (if pit_index \<le> 5 then q \<le> 5 else 7 \<le> q \<and> q \<le> 12)
                \<and> b ! (12 - q) \<noteq> 0);
             captured = (after ! store = b ! store + (1 + b ! (12 - q))
                          \<and> after ! (12 - q) = 0 \<and> after ! q = 0)
         in (captured \<longleftrightarrow> capture_cond)
          \<and> (if capture_cond
              then after = b[store := b ! store + (1 + b ! (12 - q)), 12 - q := 0]
                \<and> (total board \<le> 255 \<longrightarrow>
                     unat (after ! store) = unat (b ! store) + 1 + unat (b ! (12 - q)))
              else after = b[q := b ! q + 1]
                \<and> (total board \<le> 255 \<longrightarrow> unat (after ! q) = unat (b ! q) + 1))
          \<and> \<not> snd (play_move board pit_index)"
proof -
  have l: "length (sown_board board pit_index) = 14"
    by (simp add: sown_board_length assms(1))
  note o = own_side_iff [OF landing_pit_less assms(4,5), of pit_index]
  note a = land_last_seed_pit [OF l landing_pit_less assms(4,5), of "pit_index \<le> 5",
      unfolded Let_def o, folded play_move_land]
  show ?thesis
  proof (cases "total board \<le> 255")
    case True
    note e = land_last_seed_pit_exact [OF l landing_pit_less assms(4,5)
        sown_board_bound [OF assms(1-3) True], of "pit_index \<le> 5",
        unfolded Let_def o, folded play_move_land]
    from a e show ?thesis
      unfolding Let_def if_bool_eq_conj by blast
  next
    case False
    with a show ?thesis
      unfolding Let_def if_bool_eq_conj by blast
  qed
qed

theorem play_move_capture_witness:
  "play_move [0,0,0,1,0,0,2,0,5,0,0,0,0,0] 3 = ([0,0,0,0,0,0,8,0,0,0,0,0,0,0], False)"
proof -
  have s: "sown_board [0,0,0,1,0,0,2,0,5,0,0,0,0,0] 3 = [0,0,0,0,0,0,2,0,5,0,0,0,0,0]"
    by (simp add: sown_board_def sow_loop.simps next_pit_index_def)
  have l: "landing_pit [0,0,0,1,0,0,2,0,5,0,0,0,0,0] 3 = 4"
    by (simp add: landing_pit_def sow_loop.simps next_pit_index_def)
  have "length [0,0,0,1,0,0,2,0,5,0,0,0,0,0::u8] = 14" "(3::nat) < 14"
    "[0,0,0,1,0,0,2,0,5,0,0,0,0,0::u8] ! 3 \<noteq> 0"
    "landing_pit [0,0,0,1,0,0,2,0,5,0,0,0,0,0] 3 \<noteq> 6"
    "landing_pit [0,0,0,1,0,0,2,0,5,0,0,0,0,0] 3 \<noteq> 13"
    by (simp_all add: l)
  from play_move_capture [OF this] show ?thesis
    by (simp add: s l Let_def prod_eq_iff)
qed

theorem play_move_capture_counterexample:
  "length [0,0,0,1,0,0,250,0,10,0,0,0,0,0::u8] = 14 \<and> (3::nat) < 14
   \<and> [0,0,0,1,0,0,250,0,10,0,0,0,0,0::u8] ! 3 \<noteq> 0
   \<and> landing_pit [0,0,0,1,0,0,250,0,10,0,0,0,0,0] 3 = 4
   \<and> sown_board [0,0,0,1,0,0,250,0,10,0,0,0,0,0] 3 ! 4 = 0
   \<and> unat (sown_board [0,0,0,1,0,0,250,0,10,0,0,0,0,0] 3 ! 6) = 250
   \<and> unat (sown_board [0,0,0,1,0,0,250,0,10,0,0,0,0,0] 3 ! (12 - 4)) = 10
   \<and> unat (fst (play_move [0,0,0,1,0,0,250,0,10,0,0,0,0,0] 3) ! 6) = 5
   \<and> length [1,255,0,0,0,0,0,0,0,0,0,0,0,0::u8] = 14 \<and> (0::nat) < 14
   \<and> [1,255,0,0,0,0,0,0,0,0,0,0,0,0::u8] ! 0 \<noteq> 0
   \<and> landing_pit [1,255,0,0,0,0,0,0,0,0,0,0,0,0] 0 = 1
   \<and> unat (sown_board [1,255,0,0,0,0,0,0,0,0,0,0,0,0] 0 ! 1) = 255
   \<and> unat (fst (play_move [1,255,0,0,0,0,0,0,0,0,0,0,0,0] 0) ! 1) = 0"
  by (simp add: play_move_def sown_board_def landing_pit_def sow_loop.simps
      next_pit_index_def land_last_seed_def Let_def)

section \<open>Conservation of seeds\<close>

lemma play_move_total:
  assumes "length board = 14" and "pit_index < 14" and "board ! pit_index \<noteq> 0"
  shows "total (fst (play_move board pit_index)) mod 256 = total board mod 256
     \<and> (total board \<le> 255 \<longrightarrow> total (fst (play_move board pit_index)) = total board)"
proof -
  let ?sb = "sown_board board pit_index"
  have l: "length ?sb = 14"
    by (simp add: sown_board_length assms(1))
  have "total (fst (play_move board pit_index)) mod 256 = (total ?sb + 1) mod 256"
    unfolding play_move_land by (rule land_last_seed_total_mod [OF l landing_pit_less])
  with sown_board_total_mod [OF assms]
  have m: "total (fst (play_move board pit_index)) mod 256 = total board mod 256"
    by simp
  have "total (fst (play_move board pit_index)) = total board" if "total board \<le> 255"
  proof -
    from sown_board_total [OF assms that]
    have s: "total ?sb + 1 = total board" .
    with that have "total ?sb \<le> 254" by linarith
    from land_last_seed_total [OF l landing_pit_less this] s show ?thesis
      by (simp add: play_move_land)
  qed
  with m show ?thesis by simp
qed

text \<open>
  C3. For a legal move the number of seeds on the 14 cells is conserved
  modulo 256, and it is conserved exactly when the board holds at most 255
  seeds (no 8-bit cell can then wrap around). It is not conserved on every
  board: see the counterexample.
\<close>

theorem play_move_conserves:
  assumes "length board = 14" and "pit_index < 14" and "board ! pit_index \<noteq> 0"
  shows "total (fst (play_move board pit_index)) mod 256 = total board mod 256
     \<and> (total board \<le> 255 \<longrightarrow> total (fst (play_move board pit_index)) = total board)"
  using assms by (rule play_move_total)

theorem play_move_conserves_witness:
  "total [4,4,4,4,4,4,0,4,4,4,4,4,4,0] = 48
   \<and> total (fst (play_move [4,4,4,4,4,4,0,4,4,4,4,4,4,0] 2)) = 48"
proof -
  have t: "total [4,4,4,4,4,4,0,4,4,4,4,4,4,0] = 48"
    by (simp add: total_def)
  have "length [4,4,4,4,4,4,0,4,4,4,4,4,4,0::u8] = 14" "(2::nat) < 14"
    "[4,4,4,4,4,4,0,4,4,4,4,4,4,0::u8] ! 2 \<noteq> 0"
    by simp_all
  from play_move_conserves [OF this] show ?thesis
    by (simp add: t)
qed

theorem play_move_conserves_counterexample:
  "length [1,255,0,0,0,0,0,0,0,0,0,0,0,0::u8] = 14 \<and> (0::nat) < 14
   \<and> [1,255,0,0,0,0,0,0,0,0,0,0,0,0::u8] ! 0 \<noteq> 0
   \<and> total [1,255,0,0,0,0,0,0,0,0,0,0,0,0] = 256
   \<and> total (fst (play_move [1,255,0,0,0,0,0,0,0,0,0,0,0,0] 0)) = 0"
  by (simp add: total_def play_move_def sow_loop.simps next_pit_index_def
      land_last_seed_def Let_def)

text \<open>
  C10. A move from an empty pit of the board returns normally and is the move
  from the same pit holding one seed: the cursor advances once and the landing
  rule applies to the unchanged board. The number of seeds then grows by one
  modulo 256, and by exactly one when the board holds at most 254 seeds. It
  does not grow by one on every board: see the counterexample.
\<close>

theorem play_move_empty_pit:
  assumes "length board = 14" and "pit_index < 14" and "board ! pit_index = 0"
  shows "play_move board pit_index = play_move (board[pit_index := 1]) pit_index
     \<and> play_move board pit_index =
         land_last_seed (pit_index \<le> 5) board (next_pit_index pit_index (pit_index \<le> 5))
     \<and> total (fst (play_move board pit_index)) mod 256 = (total board + 1) mod 256
     \<and> (total board \<le> 254 \<longrightarrow> total (fst (play_move board pit_index)) = total board + 1)"
proof -
  have e: "board[pit_index := 0] = board"
    using assms by (metis list_update_id)
  have p: "play_move board pit_index =
      land_last_seed (pit_index \<le> 5) board (next_pit_index pit_index (pit_index \<le> 5))"
    using assms(3) by (simp add: play_move_def sow_loop_stop Let_def e)
  have "play_move (board[pit_index := 1]) pit_index =
      land_last_seed (pit_index \<le> 5) board (next_pit_index pit_index (pit_index \<le> 5))"
    using assms(1,2) by (simp add: play_move_def sow_loop_stop Let_def e)
  with p show ?thesis
    using land_last_seed_total_mod [OF assms(1) next_pit_index_less]
      land_last_seed_total [OF assms(1) next_pit_index_less]
    by simp
qed

theorem play_move_empty_pit_witness:
  "play_move [0,3,0,0,0,0,0,0,0,0,0,0,0,0] 0 = play_move [1,3,0,0,0,0,0,0,0,0,0,0,0,0] 0
   \<and> total [0,3,0,0,0,0,0,0,0,0,0,0,0,0] = 3
   \<and> total (fst (play_move [0,3,0,0,0,0,0,0,0,0,0,0,0,0] 0)) = 4"
proof -
  have t: "total [0,3,0,0,0,0,0,0,0,0,0,0,0,0] = 3"
    by (simp add: total_def)
  have "length [0,3,0,0,0,0,0,0,0,0,0,0,0,0::u8] = 14" "(0::nat) < 14"
    "[0,3,0,0,0,0,0,0,0,0,0,0,0,0::u8] ! 0 = 0"
    by simp_all
  note w = play_move_empty_pit [OF this]
  have a: "play_move [0,3,0,0,0,0,0,0,0,0,0,0,0,0] 0 = play_move [1,3,0,0,0,0,0,0,0,0,0,0,0,0] 0"
    using w [THEN conjunct1] by simp
  have b: "total (fst (play_move [0,3,0,0,0,0,0,0,0,0,0,0,0,0] 0)) = 4"
    using w [THEN conjunct2, THEN conjunct2, THEN conjunct2] by (simp add: t)
  from a t b show ?thesis
    by (intro conjI)
qed

theorem play_move_empty_pit_counterexample:
  "length [0,255,0,0,0,0,0,0,0,0,0,0,0,0::u8] = 14 \<and> (0::nat) < 14
   \<and> [0,255,0,0,0,0,0,0,0,0,0,0,0,0::u8] ! 0 = 0
   \<and> total [0,255,0,0,0,0,0,0,0,0,0,0,0,0] = 255
   \<and> total (fst (play_move [0,255,0,0,0,0,0,0,0,0,0,0,0,0] 0)) = 0"
  by (simp add: total_def play_move_def sow_loop.simps next_pit_index_def
      land_last_seed_def Let_def)

section \<open>The move found by the search\<close>

lemma ac_loop_first_max:
  "ac_loop rec board pits alpha beta best_eval best_move =
     first_max (ac_scores rec board pits alpha beta) best_eval best_move"
  by (induction pits arbitrary: alpha best_eval best_move)
     (simp_all add: Let_def split_def)

lemma opp_loop_first_min:
  "opp_loop rec board pits alpha beta best_eval best_move =
     first_min (opp_scores rec board pits alpha beta) best_eval best_move"
  by (induction pits arbitrary: beta best_eval best_move)
     (simp_all add: Let_def split_def)

lemma ac_scores_prefix:
  "\<exists>rest. filter (\<lambda>i. board ! i \<noteq> 0) pits = map fst (ac_scores rec board pits alpha beta) @ rest"
  by (induction pits arbitrary: alpha) (simp_all add: Let_def split_def)

lemma opp_scores_prefix:
  "\<exists>rest. filter (\<lambda>i. board ! i \<noteq> 0) pits = map fst (opp_scores rec board pits alpha beta) @ rest"
  by (induction pits arbitrary: beta) (simp_all add: Let_def split_def)

lemma ac_scores_pits:
  "x \<in> set (ac_scores rec board pits alpha beta) \<Longrightarrow> fst x \<in> set pits \<and> board ! fst x \<noteq> 0"
proof -
  assume x: "x \<in> set (ac_scores rec board pits alpha beta)"
  from ac_scores_prefix [of board pits rec alpha beta]
  obtain rest where "filter (\<lambda>i. board ! i \<noteq> 0) pits =
      map fst (ac_scores rec board pits alpha beta) @ rest" ..
  moreover from x have "fst x \<in> set (map fst (ac_scores rec board pits alpha beta))"
    by simp
  ultimately have "fst x \<in> set (filter (\<lambda>i. board ! i \<noteq> 0) pits)"
    by simp
  then show ?thesis by simp
qed

lemma opp_scores_pits:
  "x \<in> set (opp_scores rec board pits alpha beta) \<Longrightarrow> fst x \<in> set pits \<and> board ! fst x \<noteq> 0"
proof -
  assume x: "x \<in> set (opp_scores rec board pits alpha beta)"
  from opp_scores_prefix [of board pits rec alpha beta]
  obtain rest where "filter (\<lambda>i. board ! i \<noteq> 0) pits =
      map fst (opp_scores rec board pits alpha beta) @ rest" ..
  moreover from x have "fst x \<in> set (map fst (opp_scores rec board pits alpha beta))"
    by simp
  ultimately have "fst x \<in> set (filter (\<lambda>i. board ! i \<noteq> 0) pits)"
    by simp
  then show ?thesis by simp
qed

lemma first_max_split:
  "first_max scores e0 m0 = (e, m) \<Longrightarrow>
     (e = e0 \<and> m = m0 \<and> (\<forall>x\<in>set scores. snd x \<le> e0))
     \<or> (\<exists>pre i post. scores = pre @ (i, e) # post \<and> m = int i \<and> e0 < e
           \<and> (\<forall>x\<in>set pre. snd x < e) \<and> (\<forall>x\<in>set post. snd x \<le> e))"
proof (induction scores arbitrary: e0 m0)
  case Nil
  then show ?case by simp
next
  case (Cons x scores)
  obtain j s where x: "x = (j, s)" by (cases x)
  show ?case
  proof (cases "e0 < s")
    case True
    with Cons.prems x have "first_max scores s (int j) = (e, m)" by simp
    from Cons.IH [OF this] show ?thesis
    proof
      assume "e = s \<and> m = int j \<and> (\<forall>x\<in>set scores. snd x \<le> s)"
      with True x have "x # scores = [] @ (j, e) # scores \<and> m = int j \<and> e0 < e
           \<and> (\<forall>x\<in>set []. snd x < e) \<and> (\<forall>x\<in>set scores. snd x \<le> e)"
        by simp
      then show ?thesis by blast
    next
      assume "\<exists>pre i post. scores = pre @ (i, e) # post \<and> m = int i \<and> s < e
           \<and> (\<forall>x\<in>set pre. snd x < e) \<and> (\<forall>x\<in>set post. snd x \<le> e)"
      then obtain pre i post where "scores = pre @ (i, e) # post" "m = int i" "s < e"
        "\<forall>x\<in>set pre. snd x < e" "\<forall>x\<in>set post. snd x \<le> e"
        by blast
      with True x have "x # scores = (x # pre) @ (i, e) # post \<and> m = int i \<and> e0 < e
           \<and> (\<forall>y\<in>set (x # pre). snd y < e) \<and> (\<forall>x\<in>set post. snd x \<le> e)"
        by simp
      then show ?thesis by blast
    qed
  next
    case False
    with Cons.prems x have "first_max scores e0 m0 = (e, m)" by simp
    from Cons.IH [OF this] show ?thesis
    proof
      assume "e = e0 \<and> m = m0 \<and> (\<forall>x\<in>set scores. snd x \<le> e0)"
      with False x show ?thesis by simp
    next
      assume "\<exists>pre i post. scores = pre @ (i, e) # post \<and> m = int i \<and> e0 < e
           \<and> (\<forall>x\<in>set pre. snd x < e) \<and> (\<forall>x\<in>set post. snd x \<le> e)"
      then obtain pre i post where "scores = pre @ (i, e) # post" "m = int i" "e0 < e"
        "\<forall>x\<in>set pre. snd x < e" "\<forall>x\<in>set post. snd x \<le> e"
        by blast
      with False x have "x # scores = (x # pre) @ (i, e) # post \<and> m = int i \<and> e0 < e
           \<and> (\<forall>y\<in>set (x # pre). snd y < e) \<and> (\<forall>x\<in>set post. snd x \<le> e)"
        by simp
      then show ?thesis by blast
    qed
  qed
qed

lemma first_min_split:
  "first_min scores e0 m0 = (e, m) \<Longrightarrow>
     (e = e0 \<and> m = m0 \<and> (\<forall>x\<in>set scores. e0 \<le> snd x))
     \<or> (\<exists>pre i post. scores = pre @ (i, e) # post \<and> m = int i \<and> e < e0
           \<and> (\<forall>x\<in>set pre. e < snd x) \<and> (\<forall>x\<in>set post. e \<le> snd x))"
proof (induction scores arbitrary: e0 m0)
  case Nil
  then show ?case by simp
next
  case (Cons x scores)
  obtain j s where x: "x = (j, s)" by (cases x)
  show ?case
  proof (cases "s < e0")
    case True
    with Cons.prems x have "first_min scores s (int j) = (e, m)" by simp
    from Cons.IH [OF this] show ?thesis
    proof
      assume "e = s \<and> m = int j \<and> (\<forall>x\<in>set scores. s \<le> snd x)"
      with True x have "x # scores = [] @ (j, e) # scores \<and> m = int j \<and> e < e0
           \<and> (\<forall>x\<in>set []. e < snd x) \<and> (\<forall>x\<in>set scores. e \<le> snd x)"
        by simp
      then show ?thesis by blast
    next
      assume "\<exists>pre i post. scores = pre @ (i, e) # post \<and> m = int i \<and> e < s
           \<and> (\<forall>x\<in>set pre. e < snd x) \<and> (\<forall>x\<in>set post. e \<le> snd x)"
      then obtain pre i post where "scores = pre @ (i, e) # post" "m = int i" "e < s"
        "\<forall>x\<in>set pre. e < snd x" "\<forall>x\<in>set post. e \<le> snd x"
        by blast
      with True x have "x # scores = (x # pre) @ (i, e) # post \<and> m = int i \<and> e < e0
           \<and> (\<forall>y\<in>set (x # pre). e < snd y) \<and> (\<forall>x\<in>set post. e \<le> snd x)"
        by simp
      then show ?thesis by blast
    qed
  next
    case False
    with Cons.prems x have "first_min scores e0 m0 = (e, m)" by simp
    from Cons.IH [OF this] show ?thesis
    proof
      assume "e = e0 \<and> m = m0 \<and> (\<forall>x\<in>set scores. e0 \<le> snd x)"
      with False x show ?thesis by simp
    next
      assume "\<exists>pre i post. scores = pre @ (i, e) # post \<and> m = int i \<and> e < e0
           \<and> (\<forall>x\<in>set pre. e < snd x) \<and> (\<forall>x\<in>set post. e \<le> snd x)"
      then obtain pre i post where "scores = pre @ (i, e) # post" "m = int i" "e < e0"
        "\<forall>x\<in>set pre. e < snd x" "\<forall>x\<in>set post. e \<le> snd x"
        by blast
      with False x have "x # scores = (x # pre) @ (i, e) # post \<and> m = int i \<and> e < e0
           \<and> (\<forall>y\<in>set (x # pre). e < snd y) \<and> (\<forall>x\<in>set post. e \<le> snd x)"
        by simp
      then show ?thesis by blast
    qed
  qed
qed

lemma minimax_Suc_ac:
  "minimax board True (Suc depth) move_out alpha beta =
     (let (best_eval, best_move) =
            first_max (ac_scores (\<lambda>b t a be. fst (minimax b t depth None a be))
                         board AC_PITS alpha beta) (- 99) (- 1)
      in (if best_move = - 1 then sweep_eval board True else best_eval,
          case move_out of None \<Rightarrow> None | Some v \<Rightarrow> Some best_move))"
  by (simp add: ac_loop_first_max Let_def split_def)

lemma minimax_Suc_opp:
  "minimax board False (Suc depth) move_out alpha beta =
     (let (best_eval, best_move) =
            first_min (opp_scores (\<lambda>b t a be. fst (minimax b t depth None a be))
                         board OPP_PITS alpha beta) 99 (- 1)
      in (if best_move = - 1 then sweep_eval board False else best_eval,
          case move_out of None \<Rightarrow> None | Some v \<Rightarrow> Some best_move))"
  by (simp add: opp_loop_first_min Let_def split_def)

lemma minimax_ac_move:
  assumes "minimax board True (Suc d) (Some v) alpha beta = (eval, Some move)" and "move \<noteq> - 1"
  shows "\<exists>pre i post.
      ac_scores (\<lambda>b t a be. fst (minimax b t d None a be)) board AC_PITS alpha beta
        = pre @ (i, eval) # post
      \<and> move = int i \<and> (\<forall>x\<in>set pre. snd x < eval) \<and> (\<forall>x\<in>set post. snd x \<le> eval)"
proof -
  let ?scores = "ac_scores (\<lambda>b t a be. fst (minimax b t d None a be)) board AC_PITS alpha beta"
  obtain e m where f: "first_max ?scores (- 99) (- 1) = (e, m)"
    by (cases "first_max ?scores (- 99) (- 1)")
  with assms have "m = move" "e = eval"
    by (auto simp add: minimax_Suc_ac simp del: minimax.simps split: if_splits)
  with first_max_split [OF f] assms(2) show ?thesis
    by blast
qed

lemma minimax_opp_move:
  assumes "minimax board False (Suc d) (Some v) alpha beta = (eval, Some move)" and "move \<noteq> - 1"
  shows "\<exists>pre i post.
      opp_scores (\<lambda>b t a be. fst (minimax b t d None a be)) board OPP_PITS alpha beta
        = pre @ (i, eval) # post
      \<and> move = int i \<and> (\<forall>x\<in>set pre. eval < snd x) \<and> (\<forall>x\<in>set post. eval \<le> snd x)"
proof -
  let ?scores = "opp_scores (\<lambda>b t a be. fst (minimax b t d None a be)) board OPP_PITS alpha beta"
  obtain e m where f: "first_min ?scores 99 (- 1) = (e, m)"
    by (cases "first_min ?scores 99 (- 1)")
  with assms have "m = move" "e = eval"
    by (auto simp add: minimax_Suc_opp simp del: minimax.simps split: if_splits)
  with first_min_split [OF f] assms(2) show ?thesis
    by blast
qed

lemma minimax_cell_independent:
  "minimax board is_ac_turn (Suc d) (Some v) alpha beta =
   minimax board is_ac_turn (Suc d) (Some w) alpha beta"
  by (simp add: Let_def split_def)

lemma minimax_example:
  "minimax [0,0,0,0,2,1,0,0,0,0,0,0,0,0] True 1 (Some 0) (- 99) 99 = (1, Some 5)"
  by (simp add: AC_PITS_def play_move_def sow_loop.simps next_pit_index_def
      land_last_seed_def store_diff_def Let_def)

lemma minimax_reports_depth:
  assumes "\<forall>v. snd (minimax board is_ac_turn depth (Some v) alpha beta) = Some move"
  shows "0 < depth"
proof (rule ccontr)
  assume "\<not> 0 < depth"
  then have "depth = 0" by simp
  with assms have "snd (minimax board is_ac_turn 0 (Some (move + 1)) alpha beta) = Some move"
    by blast
  then show False by simp
qed

text \<open>
  C9. Whenever \<open>minimax\<close> reports a best move other than the sentinel -1,
  that is, whenever the cell behind \<open>move_out\<close> holds that move after the
  call whatever it held before, the move is a pit of the side to move (0..5 on
  AlphaCala's turn, 7..12 otherwise) and the pit is not empty on the given
  board. This holds for every board, window and depth; a move is reported
  only at a depth of at least 1, since at depth 0 the cell is left as it was.
\<close>

theorem minimax_move_legal:
  assumes "\<forall>v. snd (minimax board is_ac_turn depth (Some v) alpha beta) = Some move"
    and "move \<noteq> - 1"
  shows "0 < depth
     \<and> (if is_ac_turn then 0 \<le> move \<and> move \<le> 5 else 7 \<le> move \<and> move \<le> 12)
     \<and> board ! nat move \<noteq> 0"
proof -
  from minimax_reports_depth [OF assms(1)] obtain d where d: "depth = Suc d"
    by (cases depth) auto
  obtain eval where e: "minimax board is_ac_turn (Suc d) (Some 0) alpha beta = (eval, Some move)"
    using assms(1) d by (metis prod.collapse)
  have "(if is_ac_turn then 0 \<le> move \<and> move \<le> 5 else 7 \<le> move \<and> move \<le> 12)
     \<and> board ! nat move \<noteq> 0"
  proof (cases is_ac_turn)
    case True
    with e have "minimax board True (Suc d) (Some 0) alpha beta = (eval, Some move)"
      by (simp del: minimax.simps)
    from minimax_ac_move [OF this assms(2)]
    obtain pre i post where
      "ac_scores (\<lambda>b t a be. fst (minimax b t d None a be)) board AC_PITS alpha beta
        = pre @ (i, eval) # post" and m: "move = int i"
      by blast
    then have "(i, eval) \<in> set (ac_scores (\<lambda>b t a be. fst (minimax b t d None a be))
        board AC_PITS alpha beta)"
      by simp
    from ac_scores_pits [OF this] have "i \<in> set AC_PITS" "board ! i \<noteq> 0"
      by simp_all
    with True m show ?thesis
      by (auto simp add: AC_PITS_def)
  next
    case False
    with e have "minimax board False (Suc d) (Some 0) alpha beta = (eval, Some move)"
      by (simp del: minimax.simps)
    from minimax_opp_move [OF this assms(2)]
    obtain pre i post where
      "opp_scores (\<lambda>b t a be. fst (minimax b t d None a be)) board OPP_PITS alpha beta
        = pre @ (i, eval) # post" and m: "move = int i"
      by blast
    then have "(i, eval) \<in> set (opp_scores (\<lambda>b t a be. fst (minimax b t d None a be))
        board OPP_PITS alpha beta)"
      by simp
    from opp_scores_pits [OF this] have "i \<in> set OPP_PITS" "board ! i \<noteq> 0"
      by simp_all
    with False m show ?thesis
      by (auto simp add: OPP_PITS_def)
  qed
  with d show ?thesis by simp
qed

theorem minimax_move_legal_witness:
  "(\<forall>v. snd (minimax [0,0,0,0,2,1,0,0,0,0,0,0,0,0] True 1 (Some v) (- 99) 99) = Some 5)
   \<and> [0,0,0,0,2,1,0,0,0,0,0,0,0,0::u8] ! nat 5 \<noteq> 0"
proof -
  have r: "\<forall>v. snd (minimax [0,0,0,0,2,1,0,0,0,0,0,0,0,0] True 1 (Some v) (- 99) 99) = Some 5"
  proof
    fix v
    have "minimax [0,0,0,0,2,1,0,0,0,0,0,0,0,0] True (Suc 0) (Some v) (- 99) 99
        = minimax [0,0,0,0,2,1,0,0,0,0,0,0,0,0] True (Suc 0) (Some 0) (- 99) 99"
      by (rule minimax_cell_independent)
    also have "\<dots> = (1, Some 5)"
      using minimax_example by (simp del: minimax.simps)
    finally show "snd (minimax [0,0,0,0,2,1,0,0,0,0,0,0,0,0] True 1 (Some v) (- 99) 99) = Some 5"
      by (simp del: minimax.simps)
  qed
  have "(5::int) \<noteq> - 1"
    by simp
  from minimax_move_legal [OF r this] r
  show ?thesis
    by (simp del: minimax.simps)
qed

section \<open>Alpha-beta pruning against plain minimax\<close>

lemma total_14:
  assumes "length b = 14"
  shows "total b = unat (b ! 0) + unat (b ! 1) + unat (b ! 2) + unat (b ! 3) + unat (b ! 4)
     + unat (b ! 5) + unat (b ! 6) + unat (b ! 7) + unat (b ! 8) + unat (b ! 9)
     + unat (b ! 10) + unat (b ! 11) + unat (b ! 12) + unat (b ! 13)"
proof -
  from assms obtain x0 x1 x2 x3 x4 x5 x6 x7 x8 x9 x10 x11 x12 x13
    where "b = [x0, x1, x2, x3, x4, x5, x6, x7, x8, x9, x10, x11, x12, x13]"
    by (auto simp add: eval_nat_numeral length_Suc_conv)
  then show ?thesis
    by (simp add: total_def)
qed

lemma store_diff_bound:
  assumes "length b = 14"
  shows "\<bar>store_diff b\<bar> \<le> int (total b)"
proof -
  have "unat (b ! 6) + unat (b ! 13) \<le> total b"
    using assms by (intro two_cells_le_total) simp_all
  then show ?thesis
    unfolding store_diff_def uint_nat by linarith
qed

lemma sweep_eval_bound:
  assumes "length b = 14"
  shows "\<bar>sweep_eval b t\<bar> \<le> int (total b)"
proof -
  have s: "sweep_eval b t =
      (if t then uint (b ! 6) - uint (b ! 13) - uint (b ! 12) - uint (b ! 11)
          - uint (b ! 10) - uint (b ! 9) - uint (b ! 8) - uint (b ! 7)
       else uint (b ! 6) - uint (b ! 13) + uint (b ! 5) + uint (b ! 4)
          + uint (b ! 3) + uint (b ! 2) + uint (b ! 1) + uint (b ! 0))"
    by (simp add: sweep_eval_def store_diff_def AC_PITS_def OPP_PITS_def)
  have "int (total b) = int (unat (b ! 0)) + int (unat (b ! 1)) + int (unat (b ! 2))
     + int (unat (b ! 3)) + int (unat (b ! 4)) + int (unat (b ! 5)) + int (unat (b ! 6))
     + int (unat (b ! 7)) + int (unat (b ! 8)) + int (unat (b ! 9)) + int (unat (b ! 10))
     + int (unat (b ! 11)) + int (unat (b ! 12)) + int (unat (b ! 13))"
    by (simp only: total_14 [OF assms] of_nat_add)
  then have "- int (total b) \<le> sweep_eval b t" and "sweep_eval b t \<le> int (total b)"
    unfolding s uint_nat by (simp_all only: split: if_split) linarith+
  then show ?thesis
    by linarith
qed

lemma fst_minimax_move_out:
  "fst (minimax board is_ac_turn depth move_out alpha beta) =
   fst (minimax board is_ac_turn depth None alpha beta)"
  by (cases depth) (simp_all add: Let_def split_def)

lemma ac_scores_all:
  assumes "\<And>i a. i \<in> set pits \<Longrightarrow> board ! i \<noteq> 0 \<Longrightarrow>
      P (rec (fst (play_move board i)) (snd (play_move board i)) a beta)"
  shows "\<forall>x\<in>set (ac_scores rec board pits alpha beta). P (snd x)"
  using assms
  by (induction pits arbitrary: alpha) (simp_all add: Let_def split_def)

lemma opp_scores_all:
  assumes "\<And>i be. i \<in> set pits \<Longrightarrow> board ! i \<noteq> 0 \<Longrightarrow>
      P (rec (fst (play_move board i)) (\<not> snd (play_move board i)) alpha be)"
  shows "\<forall>x\<in>set (opp_scores rec board pits alpha beta). P (snd x)"
  using assms
  by (induction pits arbitrary: beta) (simp_all add: Let_def split_def)

lemma ac_scores_nonempty:
  "filter (\<lambda>i. board ! i \<noteq> 0) pits \<noteq> [] \<Longrightarrow> ac_scores rec board pits alpha beta \<noteq> []"
  by (induction pits arbitrary: alpha) (auto simp add: Let_def split_def split: if_splits)

lemma opp_scores_nonempty:
  "filter (\<lambda>i. board ! i \<noteq> 0) pits \<noteq> [] \<Longrightarrow> opp_scores rec board pits alpha beta \<noteq> []"
  by (induction pits arbitrary: beta) (auto simp add: Let_def split_def split: if_splits)

lemma ac_scores_empty:
  "filter (\<lambda>i. board ! i \<noteq> 0) pits = [] \<Longrightarrow> ac_scores rec board pits alpha beta = []"
  by (induction pits arbitrary: alpha) (simp_all split: if_splits)

lemma opp_scores_empty:
  "filter (\<lambda>i. board ! i \<noteq> 0) pits = [] \<Longrightarrow> opp_scores rec board pits alpha beta = []"
  by (induction pits arbitrary: beta) (simp_all split: if_splits)

lemma play_move_child:
  assumes "length board = 14" "i < 14" "board ! i \<noteq> 0" "total board \<le> 255"
  shows "length (fst (play_move board i)) = 14 \<and> total (fst (play_move board i)) = total board"
  using play_move_total [OF assms(1-3)] assms by (simp add: play_move_length)

lemma AC_PITS_less: "i \<in> set AC_PITS \<Longrightarrow> i < 14"
  by (auto simp add: AC_PITS_def)

lemma OPP_PITS_less: "i \<in> set OPP_PITS \<Longrightarrow> i < 14"
  by (auto simp add: OPP_PITS_def)

lemma fold_max_ge: "a \<le> fold max vs (a::int)"
proof (induction vs arbitrary: a)
  case Nil
  show ?case by simp
next
  case (Cons v vs)
  have "a \<le> max v a" by simp
  also have "\<dots> \<le> fold max vs (max v a)" by (rule Cons.IH)
  finally show ?case by simp
qed

lemma fold_min_le: "fold min vs (a::int) \<le> a"
proof (induction vs arbitrary: a)
  case Nil
  show ?case by simp
next
  case (Cons v vs)
  have "fold min vs (min v a) \<le> min v a" by (rule Cons.IH)
  also have "\<dots> \<le> a" by simp
  finally show ?case by simp
qed

lemma fold_max_Max: "vs \<noteq> [] \<Longrightarrow> fold max vs (a::int) = max a (Max (set vs))"
proof (induction vs arbitrary: a)
  case Nil
  then show ?case by simp
next
  case (Cons v vs)
  show ?case
  proof (cases "vs = []")
    case True
    then show ?thesis by (simp add: max.commute)
  next
    case False
    with Cons.IH [of "max v a"] show ?thesis
      by (simp add: max.assoc max.commute max.left_commute)
  qed
qed

lemma fold_min_Min: "vs \<noteq> [] \<Longrightarrow> fold min vs (a::int) = min a (Min (set vs))"
proof (induction vs arbitrary: a)
  case Nil
  then show ?case by simp
next
  case (Cons v vs)
  show ?case
  proof (cases "vs = []")
    case True
    then show ?thesis by (simp add: min.commute)
  next
    case False
    with Cons.IH [of "min v a"] show ?thesis
      by (simp add: min.assoc min.commute min.left_commute)
  qed
qed

lemma ac_loop_window:
  assumes "\<And>i a. i \<in> set pits \<Longrightarrow> board ! i \<noteq> 0 \<Longrightarrow> alpha \<le> a \<Longrightarrow> a < beta \<Longrightarrow>
      within_window a beta (cv i)
        (rec (fst (play_move board i)) (snd (play_move board i)) a beta)"
    and "alpha < beta" and "best_eval \<le> alpha"
  shows "let R = fst (ac_loop rec board pits alpha beta best_eval best_move);
             M = fold max (map cv (filter (\<lambda>i. board ! i \<noteq> 0) pits)) alpha
         in best_eval \<le> R \<and> (beta \<le> M \<longrightarrow> beta \<le> R)
            \<and> (M < beta \<longrightarrow> (M = alpha \<longrightarrow> R \<le> alpha) \<and> (alpha < M \<longrightarrow> R = M))"
  using assms
proof (induction pits arbitrary: alpha best_eval best_move)
  case Nil
  then show ?case by simp
next
  case (Cons i pits)
  show ?case
  proof (cases "board ! i = 0")
    case True
    have "let R = fst (ac_loop rec board pits alpha beta best_eval best_move);
             M = fold max (map cv (filter (\<lambda>i. board ! i \<noteq> 0) pits)) alpha
         in best_eval \<le> R \<and> (beta \<le> M \<longrightarrow> beta \<le> R)
            \<and> (M < beta \<longrightarrow> (M = alpha \<longrightarrow> R \<le> alpha) \<and> (alpha < M \<longrightarrow> R = M))"
      using Cons.prems by (intro Cons.IH) simp_all
    with True show ?thesis by simp
  next
    case False
    define r where "r = rec (fst (play_move board i)) (snd (play_move board i)) alpha beta"
    define v where "v = cv i"
    define best' where "best' = (if r > best_eval then r else best_eval)"
    define move' where "move' = (if r > best_eval then int i else best_move)"
    define alpha' where "alpha' = max alpha r"
    define vs where "vs = map cv (filter (\<lambda>i. board ! i \<noteq> 0) pits)"
    have w: "within_window alpha beta v r"
      unfolding r_def v_def using False Cons.prems(2) by (intro Cons.prems(1)) simp_all
    have M: "fold max (map cv (filter (\<lambda>i. board ! i \<noteq> 0) (i # pits))) alpha =
        fold max vs (max v alpha)"
      using False by (simp add: vs_def v_def)
    show ?thesis
    proof (cases "beta \<le> alpha'")
      case True
      then have R: "fst (ac_loop rec board (i # pits) alpha beta best_eval best_move) = best'"
        using False by (simp add: Let_def split_def r_def best'_def alpha'_def)
      from True Cons.prems(2) have rb: "beta \<le> r"
        by (simp add: alpha'_def)
      with w Cons.prems(2) have "beta \<le> v"
        unfolding within_window_def by linarith
      then have "beta \<le> max v alpha" by simp
      also have "\<dots> \<le> fold max vs (max v alpha)" by (rule fold_max_ge)
      finally have "beta \<le> fold max vs (max v alpha)" .
      moreover have "best_eval \<le> best'" "beta \<le> best'"
        using rb Cons.prems(2,3) by (simp_all add: best'_def)
      ultimately show ?thesis
        unfolding Let_def R M by simp
    next
      case False
      note nb = this
      then have R: "fst (ac_loop rec board (i # pits) alpha beta best_eval best_move) =
          fst (ac_loop rec board pits alpha' beta best' move')"
        using \<open>board ! i \<noteq> 0\<close>
        by (simp add: Let_def split_def r_def best'_def alpha'_def move'_def)
      from nb have ab: "alpha' < beta" by simp
      have ba: "best' \<le> alpha'"
        using Cons.prems(3) by (simp add: best'_def alpha'_def)
      have ch: "within_window a beta (cv j)
          (rec (fst (play_move board j)) (snd (play_move board j)) a beta)"
        if "j \<in> set pits" "board ! j \<noteq> 0" "alpha' \<le> a" "a < beta" for j a
        using that by (intro Cons.prems(1)) (simp_all add: alpha'_def)
      have ih: "let R = fst (ac_loop rec board pits alpha' beta best' move');
             M = fold max vs alpha'
         in best' \<le> R \<and> (beta \<le> M \<longrightarrow> beta \<le> R)
            \<and> (M < beta \<longrightarrow> (M = alpha' \<longrightarrow> R \<le> alpha') \<and> (alpha' < M \<longrightarrow> R = M))"
        unfolding vs_def using ch ab ba by (rule Cons.IH)
      have rlt: "r < beta" using ab by (simp add: alpha'_def)
      have ge: "alpha' \<le> fold max vs alpha'" by (rule fold_max_ge)
      show ?thesis
      proof (cases "v \<le> alpha")
        case True
        with w have "r \<le> alpha" unfolding within_window_def by simp
        then have "alpha' = alpha" "max v alpha = alpha" "best_eval \<le> best'"
          using True by (simp_all add: alpha'_def best'_def)
        with ih show ?thesis
          unfolding Let_def R M by auto
      next
        case False
        with w rlt have "r = v" "v < beta"
          unfolding within_window_def by linarith+
        with False Cons.prems(3) have "alpha' = v" "max v alpha = v" "best' = v"
          "best_eval \<le> v" "alpha < v"
          by (simp_all add: alpha'_def best'_def)
        with ih ge show ?thesis
          unfolding Let_def R M by auto
      qed
    qed
  qed
qed

lemma opp_loop_window:
  assumes "\<And>i be. i \<in> set pits \<Longrightarrow> board ! i \<noteq> 0 \<Longrightarrow> be \<le> beta \<Longrightarrow> alpha < be \<Longrightarrow>
      within_window alpha be (cv i)
        (rec (fst (play_move board i)) (\<not> snd (play_move board i)) alpha be)"
    and "alpha < beta" and "beta \<le> best_eval"
  shows "let R = fst (opp_loop rec board pits alpha beta best_eval best_move);
             M = fold min (map cv (filter (\<lambda>i. board ! i \<noteq> 0) pits)) beta
         in R \<le> best_eval \<and> (M \<le> alpha \<longrightarrow> R \<le> alpha)
            \<and> (alpha < M \<longrightarrow> (M = beta \<longrightarrow> beta \<le> R) \<and> (M < beta \<longrightarrow> R = M))"
  using assms
proof (induction pits arbitrary: beta best_eval best_move)
  case Nil
  then show ?case by simp
next
  case (Cons i pits)
  show ?case
  proof (cases "board ! i = 0")
    case True
    have "let R = fst (opp_loop rec board pits alpha beta best_eval best_move);
             M = fold min (map cv (filter (\<lambda>i. board ! i \<noteq> 0) pits)) beta
         in R \<le> best_eval \<and> (M \<le> alpha \<longrightarrow> R \<le> alpha)
            \<and> (alpha < M \<longrightarrow> (M = beta \<longrightarrow> beta \<le> R) \<and> (M < beta \<longrightarrow> R = M))"
      using Cons.prems by (intro Cons.IH) simp_all
    with True show ?thesis by simp
  next
    case False
    define r where "r = rec (fst (play_move board i)) (\<not> snd (play_move board i)) alpha beta"
    define v where "v = cv i"
    define best' where "best' = (if r < best_eval then r else best_eval)"
    define move' where "move' = (if r < best_eval then int i else best_move)"
    define beta' where "beta' = min beta r"
    define vs where "vs = map cv (filter (\<lambda>i. board ! i \<noteq> 0) pits)"
    have w: "within_window alpha beta v r"
      unfolding r_def v_def using False Cons.prems(2) by (intro Cons.prems(1)) simp_all
    have M: "fold min (map cv (filter (\<lambda>i. board ! i \<noteq> 0) (i # pits))) beta =
        fold min vs (min v beta)"
      using False by (simp add: vs_def v_def)
    show ?thesis
    proof (cases "beta' \<le> alpha")
      case True
      then have R: "fst (opp_loop rec board (i # pits) alpha beta best_eval best_move) = best'"
        using False by (simp add: Let_def split_def r_def best'_def beta'_def)
      from True Cons.prems(2) have rb: "r \<le> alpha"
        by (simp add: beta'_def)
      with w Cons.prems(2) have "v \<le> alpha"
        unfolding within_window_def by linarith
      have "fold min vs (min v beta) \<le> min v beta" by (rule fold_min_le)
      also have "\<dots> \<le> alpha" using \<open>v \<le> alpha\<close> by simp
      finally have "fold min vs (min v beta) \<le> alpha" .
      moreover have "best' \<le> best_eval" "best' \<le> alpha"
        using rb Cons.prems(2,3) by (simp_all add: best'_def)
      ultimately show ?thesis
        unfolding Let_def R M by simp
    next
      case False
      note nb = this
      then have R: "fst (opp_loop rec board (i # pits) alpha beta best_eval best_move) =
          fst (opp_loop rec board pits alpha beta' best' move')"
        using \<open>board ! i \<noteq> 0\<close>
        by (simp add: Let_def split_def r_def best'_def beta'_def move'_def)
      from nb have ab: "alpha < beta'" by simp
      have ba: "beta' \<le> best'"
        using Cons.prems(3) by (simp add: best'_def beta'_def)
      have ch: "within_window alpha be (cv j)
          (rec (fst (play_move board j)) (\<not> snd (play_move board j)) alpha be)"
        if "j \<in> set pits" "board ! j \<noteq> 0" "be \<le> beta'" "alpha < be" for j be
        using that by (intro Cons.prems(1)) (simp_all add: beta'_def)
      have ih: "let R = fst (opp_loop rec board pits alpha beta' best' move');
             M = fold min vs beta'
         in R \<le> best' \<and> (M \<le> alpha \<longrightarrow> R \<le> alpha)
            \<and> (alpha < M \<longrightarrow> (M = beta' \<longrightarrow> beta' \<le> R) \<and> (M < beta' \<longrightarrow> R = M))"
        unfolding vs_def using ch ab ba by (rule Cons.IH)
      have rgt: "alpha < r" using ab by (simp add: beta'_def)
      have le: "fold min vs beta' \<le> beta'" by (rule fold_min_le)
      show ?thesis
      proof (cases "beta \<le> v")
        case True
        with w have "beta \<le> r" unfolding within_window_def by simp
        then have "beta' = beta" "min v beta = beta" "best' \<le> best_eval"
          using True by (simp_all add: beta'_def best'_def)
        with ih show ?thesis
          unfolding Let_def R M by auto
      next
        case False
        with w rgt have "r = v" "alpha < v"
          unfolding within_window_def by linarith+
        with False Cons.prems(3) have "beta' = v" "min v beta = v" "best' = v"
          "v \<le> best_eval" "v < beta"
          by (simp_all add: beta'_def best'_def)
        with ih le show ?thesis
          unfolding Let_def R M by auto
      qed
    qed
  qed
qed

lemma minimax_bound:
  "length board = 14 \<Longrightarrow> total board \<le> 255 \<Longrightarrow>
   \<bar>fst (minimax board is_ac_turn depth move_out alpha beta)\<bar> \<le> int (total board)"
proof (induction depth arbitrary: board is_ac_turn move_out alpha beta)
  case 0
  then show ?case by (simp add: store_diff_bound)
next
  case (Suc depth)
  let ?rec = "\<lambda>b t a be. fst (minimax b t depth None a be)"
  have child: "\<bar>?rec (fst (play_move board i)) t a be\<bar> \<le> int (total board)"
    if "i < 14" "board ! i \<noteq> 0" for i t a be
  proof -
    from play_move_child [OF Suc.prems(1) that Suc.prems(2)]
    have "length (fst (play_move board i)) = 14" "total (fst (play_move board i)) = total board"
      by simp_all
    with Suc.IH [of "fst (play_move board i)" t None a be] Suc.prems(2) show ?thesis
      by simp
  qed
  show ?case
  proof (cases is_ac_turn)
    case True
    let ?scores = "ac_scores ?rec board AC_PITS alpha beta"
    obtain e m where f: "first_max ?scores (- 99) (- 1) = (e, m)"
      by (cases "first_max ?scores (- 99) (- 1)")
    have r: "fst (minimax board is_ac_turn (Suc depth) move_out alpha beta) =
        (if m = - 1 then sweep_eval board True else e)"
      using True f by (simp add: minimax_Suc_ac del: minimax.simps)
    have all: "\<forall>x\<in>set ?scores. \<bar>snd x\<bar> \<le> int (total board)"
      by (rule ac_scores_all) (simp add: child AC_PITS_less)
    show ?thesis
    proof (cases "m = - 1")
      case True
      with r show ?thesis by (simp add: sweep_eval_bound Suc.prems(1))
    next
      case False
      with first_max_split [OF f] obtain pre i post where "?scores = pre @ (i, e) # post"
        by auto
      then have "(i, e) \<in> set ?scores" by simp
      with all have "\<bar>e\<bar> \<le> int (total board)" by fastforce
      with False r show ?thesis by simp
    qed
  next
    case False
    let ?scores = "opp_scores ?rec board OPP_PITS alpha beta"
    obtain e m where f: "first_min ?scores 99 (- 1) = (e, m)"
      by (cases "first_min ?scores 99 (- 1)")
    have r: "fst (minimax board is_ac_turn (Suc depth) move_out alpha beta) =
        (if m = - 1 then sweep_eval board False else e)"
      using False f by (simp add: minimax_Suc_opp del: minimax.simps)
    have all: "\<forall>x\<in>set ?scores. \<bar>snd x\<bar> \<le> int (total board)"
      by (rule opp_scores_all) (simp add: child OPP_PITS_less)
    show ?thesis
    proof (cases "m = - 1")
      case True
      with r show ?thesis by (simp add: sweep_eval_bound Suc.prems(1))
    next
      case False
      with first_min_split [OF f] obtain pre i post where "?scores = pre @ (i, e) # post"
        by auto
      then have "(i, e) \<in> set ?scores" by simp
      with all have "\<bar>e\<bar> \<le> int (total board)" by fastforce
      with False r show ?thesis by simp
    qed
  qed
qed

lemma plain_minimax_Suc_ac:
  "plain_minimax board True (Suc depth) =
     (let moves = filter (\<lambda>i. board ! i \<noteq> 0) AC_PITS;
          child_values = map (\<lambda>i. plain_minimax (fst (play_move board i))
                     (snd (play_move board i)) depth) moves
      in if moves = [] then sweep_eval board True else Max (set child_values))"
  by (simp add: Let_def)

lemma plain_minimax_Suc_opp:
  "plain_minimax board False (Suc depth) =
     (let moves = filter (\<lambda>i. board ! i \<noteq> 0) OPP_PITS;
          child_values = map (\<lambda>i. plain_minimax (fst (play_move board i))
                     (\<not> snd (play_move board i)) depth) moves
      in if moves = [] then sweep_eval board False else Min (set child_values))"
  by (simp add: Let_def)

lemma plain_minimax_bound:
  "length board = 14 \<Longrightarrow> total board \<le> 255 \<Longrightarrow>
   \<bar>plain_minimax board is_ac_turn depth\<bar> \<le> int (total board)"
proof (induction depth arbitrary: board is_ac_turn)
  case 0
  then show ?case by (simp add: store_diff_bound)
next
  case (Suc depth)
  have child: "\<bar>plain_minimax (fst (play_move board i)) t depth\<bar> \<le> int (total board)"
    if "i < 14" "board ! i \<noteq> 0" for i t
  proof -
    from play_move_child [OF Suc.prems(1) that Suc.prems(2)]
    have "length (fst (play_move board i)) = 14" "total (fst (play_move board i)) = total board"
      by simp_all
    with Suc.IH [of "fst (play_move board i)" t] Suc.prems(2) show ?thesis
      by simp
  qed
  show ?case
  proof (cases is_ac_turn)
    case True
    let ?moves = "filter (\<lambda>i. board ! i \<noteq> 0) AC_PITS"
    let ?vals = "map (\<lambda>i. plain_minimax (fst (play_move board i))
        (snd (play_move board i)) depth) ?moves"
    show ?thesis
    proof (cases "?moves = []")
      case e: True
      with True show ?thesis
        by (simp add: plain_minimax_Suc_ac sweep_eval_bound Suc.prems(1)
            del: plain_minimax.simps)
    next
      case ne: False
      then have "Max (set ?vals) \<in> set ?vals"
        by (intro Max_in) (simp_all del: filter_empty_conv set_filter)
      then obtain i where "i \<in> set AC_PITS" "board ! i \<noteq> 0"
        "Max (set ?vals) = plain_minimax (fst (play_move board i))
           (snd (play_move board i)) depth"
        by auto
      with child [of i] have "\<bar>Max (set ?vals)\<bar> \<le> int (total board)"
        by (simp add: AC_PITS_less)
      with True ne show ?thesis
        by (simp add: plain_minimax_Suc_ac del: plain_minimax.simps)
    qed
  next
    case False
    let ?moves = "filter (\<lambda>i. board ! i \<noteq> 0) OPP_PITS"
    let ?vals = "map (\<lambda>i. plain_minimax (fst (play_move board i))
        (\<not> snd (play_move board i)) depth) ?moves"
    show ?thesis
    proof (cases "?moves = []")
      case e: True
      with False show ?thesis
        by (simp add: plain_minimax_Suc_opp sweep_eval_bound Suc.prems(1)
            del: plain_minimax.simps)
    next
      case ne: False
      then have "Min (set ?vals) \<in> set ?vals"
        by (intro Min_in) (simp_all del: filter_empty_conv set_filter)
      then obtain i where "i \<in> set OPP_PITS" "board ! i \<noteq> 0"
        "Min (set ?vals) = plain_minimax (fst (play_move board i))
           (\<not> snd (play_move board i)) depth"
        by auto
      with child [of i] have "\<bar>Min (set ?vals)\<bar> \<le> int (total board)"
        by (simp add: OPP_PITS_less)
      with False ne show ?thesis
        by (simp add: plain_minimax_Suc_opp del: plain_minimax.simps)
    qed
  qed
qed

lemma within_window_refl: "within_window alpha beta v v"
  by (simp add: within_window_def)

lemma minimax_window:
  "length board = 14 \<Longrightarrow> total board \<le> 98 \<Longrightarrow> - 99 \<le> alpha \<Longrightarrow> alpha < beta \<Longrightarrow> beta \<le> 99 \<Longrightarrow>
   within_window alpha beta (plain_minimax board is_ac_turn depth)
     (fst (minimax board is_ac_turn depth None alpha beta))"
proof (induction depth arbitrary: board is_ac_turn alpha beta)
  case 0
  show ?case by (simp add: within_window_refl)
next
  case (Suc depth)
  let ?rec = "\<lambda>b t a be. fst (minimax b t depth None a be)"
  have t255: "total board \<le> 255" using Suc.prems(2) by simp
  have child: "length (fst (play_move board i)) = 14 \<and> total (fst (play_move board i)) \<le> 98"
    if "i < 14" "board ! i \<noteq> 0" for i
    using play_move_child [OF Suc.prems(1) that t255] Suc.prems(2) by simp
  have bound: "\<bar>?rec (fst (play_move board i)) t a be\<bar> \<le> 98"
    if "i < 14" "board ! i \<noteq> 0" for i t a be
  proof -
    from child [OF that]
    have "\<bar>?rec (fst (play_move board i)) t a be\<bar> \<le> int (total (fst (play_move board i)))"
      by (intro minimax_bound) simp_all
    with child [OF that] show ?thesis by linarith
  qed
  show ?case
  proof (cases is_ac_turn)
    case True
    let ?moves = "filter (\<lambda>i. board ! i \<noteq> 0) AC_PITS"
    let ?cv = "\<lambda>i. plain_minimax (fst (play_move board i)) (snd (play_move board i)) depth"
    let ?scores = "ac_scores ?rec board AC_PITS alpha beta"
    obtain e m where f: "first_max ?scores (- 99) (- 1) = (e, m)"
      by (cases "first_max ?scores (- 99) (- 1)")
    have r: "fst (minimax board True (Suc depth) None alpha beta) =
        (if m = - 1 then sweep_eval board True else e)"
      using f by (simp add: minimax_Suc_ac del: minimax.simps)
    show ?thesis
    proof (cases "?moves = []")
      case e: True
      then have "?scores = []" by (rule ac_scores_empty)
      with f have "m = - 1" by simp
      with r e True show ?thesis
        by (simp add: plain_minimax_Suc_ac within_window_refl
            del: minimax.simps plain_minimax.simps)
    next
      case ne: False
      then have "?scores \<noteq> []" by (rule ac_scores_nonempty)
      moreover have "\<forall>x\<in>set ?scores. \<bar>snd x\<bar> \<le> 98"
        by (rule ac_scores_all) (simp add: bound AC_PITS_less)
      ultimately have "\<not> (\<forall>x\<in>set ?scores. snd x \<le> - 99)"
        by (cases ?scores) fastforce+
      with first_max_split [OF f] have "m \<noteq> - 1"
        by auto
      with r have R: "fst (minimax board True (Suc depth) None alpha beta) =
          fst (ac_loop ?rec board AC_PITS alpha beta (- 99) (- 1))"
        using f by (simp add: ac_loop_first_max)
      have ch: "within_window a beta (?cv i)
          (?rec (fst (play_move board i)) (snd (play_move board i)) a beta)"
        if "i \<in> set AC_PITS" "board ! i \<noteq> 0" "alpha \<le> a" "a < beta" for i a
        using child [OF AC_PITS_less [OF that(1)] that(2)] that(3,4) Suc.prems(3,5)
        by (intro Suc.IH) simp_all
      note w = ac_loop_window [where cv = ?cv and rec = ?rec and board = board
          and pits = AC_PITS and alpha = alpha and beta = beta and best_eval = "- 99"
          and best_move = "- 1", OF ch Suc.prems(4,3)]
      have V: "plain_minimax board True (Suc depth) = Max (set (map ?cv ?moves))"
        using ne by (simp add: plain_minimax_Suc_ac del: plain_minimax.simps)
      have M: "fold max (map ?cv ?moves) alpha = max alpha (Max (set (map ?cv ?moves)))"
        using ne by (intro fold_max_Max) simp
      define R0 where "R0 = fst (ac_loop ?rec board AC_PITS alpha beta (- 99) (- 1))"
      define V0 where "V0 = Max (set (map ?cv ?moves))"
      from w have "within_window alpha beta V0 R0"
        unfolding Let_def M R0_def [symmetric] V0_def [symmetric] within_window_def
        using Suc.prems(4) by (simp add: max_def split: if_splits)
      moreover have "is_ac_turn = True" using True by simp
      ultimately show ?thesis
        by (simp only: R V R0_def V0_def)
    qed
  next
    case False
    let ?moves = "filter (\<lambda>i. board ! i \<noteq> 0) OPP_PITS"
    let ?cv = "\<lambda>i. plain_minimax (fst (play_move board i)) (\<not> snd (play_move board i)) depth"
    let ?scores = "opp_scores ?rec board OPP_PITS alpha beta"
    obtain e m where f: "first_min ?scores 99 (- 1) = (e, m)"
      by (cases "first_min ?scores 99 (- 1)")
    have r: "fst (minimax board False (Suc depth) None alpha beta) =
        (if m = - 1 then sweep_eval board False else e)"
      using f by (simp add: minimax_Suc_opp del: minimax.simps)
    show ?thesis
    proof (cases "?moves = []")
      case e: True
      then have "?scores = []" by (rule opp_scores_empty)
      with f have "m = - 1" by simp
      with r e False show ?thesis
        by (simp add: plain_minimax_Suc_opp within_window_refl
            del: minimax.simps plain_minimax.simps)
    next
      case ne: False
      then have "?scores \<noteq> []" by (rule opp_scores_nonempty)
      moreover have "\<forall>x\<in>set ?scores. \<bar>snd x\<bar> \<le> 98"
        by (rule opp_scores_all) (simp add: bound OPP_PITS_less)
      ultimately have "\<not> (\<forall>x\<in>set ?scores. 99 \<le> snd x)"
        by (cases ?scores) fastforce+
      with first_min_split [OF f] have "m \<noteq> - 1"
        by auto
      with r have R: "fst (minimax board False (Suc depth) None alpha beta) =
          fst (opp_loop ?rec board OPP_PITS alpha beta 99 (- 1))"
        using f by (simp add: opp_loop_first_min)
      have ch: "within_window alpha be (?cv i)
          (?rec (fst (play_move board i)) (\<not> snd (play_move board i)) alpha be)"
        if "i \<in> set OPP_PITS" "board ! i \<noteq> 0" "be \<le> beta" "alpha < be" for i be
        using child [OF OPP_PITS_less [OF that(1)] that(2)] that(3,4) Suc.prems(3,5)
        by (intro Suc.IH) simp_all
      note w = opp_loop_window [where cv = ?cv and rec = ?rec and board = board
          and pits = OPP_PITS and alpha = alpha and beta = beta and best_eval = 99
          and best_move = "- 1", OF ch Suc.prems(4,5)]
      have V: "plain_minimax board False (Suc depth) = Min (set (map ?cv ?moves))"
        using ne by (simp add: plain_minimax_Suc_opp del: plain_minimax.simps)
      have M: "fold min (map ?cv ?moves) beta = min beta (Min (set (map ?cv ?moves)))"
        using ne by (intro fold_min_Min) simp
      define R0 where "R0 = fst (opp_loop ?rec board OPP_PITS alpha beta 99 (- 1))"
      define V0 where "V0 = Min (set (map ?cv ?moves))"
      from w have "within_window alpha beta V0 R0"
        unfolding Let_def M R0_def [symmetric] V0_def [symmetric] within_window_def
        using Suc.prems(4) by (simp add: min_def split: if_splits)
      moreover have "is_ac_turn = False" using False by simp
      ultimately show ?thesis
        by (simp only: R V R0_def V0_def)
    qed
  qed
qed

text \<open>
  C7. On every board that holds at most 48 seeds, for every turn and every
  depth, \<open>minimax\<close> called with the initial window -99, 99 returns the value
  of plain fixed-depth minimax without pruning, over the same \<open>play_move\<close>
  and the same evaluation; that value lies strictly between -99 and 99.
\<close>

theorem minimax_eq_plain_minimax:
  assumes "length board = 14" and "total board \<le> 48"
  shows "fst (minimax board is_ac_turn depth move_out (- 99) 99)
       = plain_minimax board is_ac_turn depth
     \<and> - 99 < plain_minimax board is_ac_turn depth
     \<and> plain_minimax board is_ac_turn depth < 99"
proof -
  from assms have "\<bar>plain_minimax board is_ac_turn depth\<bar> \<le> int (total board)"
    by (intro plain_minimax_bound) simp_all
  with assms(2) have b: "- 99 < plain_minimax board is_ac_turn depth"
    "plain_minimax board is_ac_turn depth < 99"
    by linarith+
  from assms have "within_window (- 99) 99 (plain_minimax board is_ac_turn depth)
     (fst (minimax board is_ac_turn depth None (- 99) 99))"
    by (intro minimax_window) simp_all
  with b have "fst (minimax board is_ac_turn depth None (- 99) 99)
      = plain_minimax board is_ac_turn depth"
    by (simp add: within_window_def)
  with b show ?thesis
    by (simp add: fst_minimax_move_out [of board is_ac_turn depth move_out])
qed

theorem minimax_eq_plain_minimax_witness:
  "total [4,4,4,4,4,4,0,4,4,4,4,4,4,0] = 48
   \<and> fst (minimax [4,4,4,4,4,4,0,4,4,4,4,4,4,0] True 2 (Some 0) (- 99) 99) = 2
   \<and> plain_minimax [4,4,4,4,4,4,0,4,4,4,4,4,4,0] True 2 = 2"
proof -
  have t: "total [4,4,4,4,4,4,0,4,4,4,4,4,4,0] = 48"
    by (simp add: total_def)
  have m: "fst (minimax [4,4,4,4,4,4,0,4,4,4,4,4,4,0] True 2 (Some 0) (- 99) 99) = 2"
    by code_simp
  have "length [4,4,4,4,4,4,0,4,4,4,4,4,4,0::u8] = 14"
    "total [4,4,4,4,4,4,0,4,4,4,4,4,4,0] \<le> 48"
    by (simp_all add: t)
  from minimax_eq_plain_minimax [OF this, of True 2 "Some 0", THEN conjunct1] m
  have "plain_minimax [4,4,4,4,4,4,0,4,4,4,4,4,4,0] True 2 = 2"
    by (simp only:)
  with t m show ?thesis
    by (intro conjI)
qed

section \<open>Ties between moves\<close>

lemma ac_loop_root:
  assumes "\<And>i a. i \<in> set pits \<Longrightarrow> board ! i \<noteq> 0 \<Longrightarrow> alpha \<le> a \<Longrightarrow> a < beta \<Longrightarrow>
      within_window a beta (cv i)
        (rec (fst (play_move board i)) (snd (play_move board i)) a beta)"
    and "\<And>i. i \<in> set pits \<Longrightarrow> board ! i \<noteq> 0 \<Longrightarrow> cv i < beta"
    and "alpha < beta"
  shows "ac_loop rec board pits alpha beta alpha best_move =
     first_max (map (\<lambda>i. (i, cv i)) (filter (\<lambda>i. board ! i \<noteq> 0) pits)) alpha best_move"
  using assms
proof (induction pits arbitrary: alpha best_move)
  case Nil
  show ?case by simp
next
  case (Cons i pits)
  show ?case
  proof (cases "board ! i = 0")
    case True
    have "ac_loop rec board pits alpha beta alpha best_move =
        first_max (map (\<lambda>i. (i, cv i)) (filter (\<lambda>i. board ! i \<noteq> 0) pits)) alpha best_move"
      using Cons.prems by (intro Cons.IH) simp_all
    with True show ?thesis by simp
  next
    case False
    define r where "r = rec (fst (play_move board i)) (snd (play_move board i)) alpha beta"
    have w: "within_window alpha beta (cv i) r"
      unfolding r_def using False Cons.prems(3) by (intro Cons.prems(1)) simp_all
    have vb: "cv i < beta"
      using False by (intro Cons.prems(2)) simp_all
    show ?thesis
    proof (cases "cv i \<le> alpha")
      case True
      with w have ra: "r \<le> alpha" by (simp add: within_window_def)
      have "ac_loop rec board pits alpha beta alpha best_move =
          first_max (map (\<lambda>i. (i, cv i)) (filter (\<lambda>i. board ! i \<noteq> 0) pits)) alpha best_move"
        using Cons.prems by (intro Cons.IH) simp_all
      moreover have "ac_loop rec board (i # pits) alpha beta alpha best_move =
          ac_loop rec board pits alpha beta alpha best_move"
      proof -
        have "max alpha r = alpha" "\<not> alpha < r" "\<not> beta \<le> alpha"
          using ra Cons.prems(3) by simp_all
        then show ?thesis
          using False unfolding r_def by (simp add: Let_def split_def)
      qed
      ultimately show ?thesis
        using False True by simp
    next
      case gt: False
      with w vb have rv: "r = cv i" by (simp add: within_window_def)
      have "ac_loop rec board pits (cv i) beta (cv i) (int i) =
          first_max (map (\<lambda>i. (i, cv i)) (filter (\<lambda>i. board ! i \<noteq> 0) pits)) (cv i) (int i)"
        using Cons.prems(1,2) gt vb by (intro Cons.IH) simp_all
      moreover have "ac_loop rec board (i # pits) alpha beta alpha best_move =
          ac_loop rec board pits (cv i) beta (cv i) (int i)"
      proof -
        have "max alpha r = cv i" "alpha < r" "\<not> beta \<le> cv i" "r = cv i"
          using gt vb rv by simp_all
        then show ?thesis
          using False unfolding r_def by (simp add: Let_def split_def)
      qed
      ultimately show ?thesis
        using False gt by simp
    qed
  qed
qed

lemma opp_loop_root:
  assumes "\<And>i be. i \<in> set pits \<Longrightarrow> board ! i \<noteq> 0 \<Longrightarrow> be \<le> beta \<Longrightarrow> alpha < be \<Longrightarrow>
      within_window alpha be (cv i)
        (rec (fst (play_move board i)) (\<not> snd (play_move board i)) alpha be)"
    and "\<And>i. i \<in> set pits \<Longrightarrow> board ! i \<noteq> 0 \<Longrightarrow> alpha < cv i"
    and "alpha < beta"
  shows "opp_loop rec board pits alpha beta beta best_move =
     first_min (map (\<lambda>i. (i, cv i)) (filter (\<lambda>i. board ! i \<noteq> 0) pits)) beta best_move"
  using assms
proof (induction pits arbitrary: beta best_move)
  case Nil
  show ?case by simp
next
  case (Cons i pits)
  show ?case
  proof (cases "board ! i = 0")
    case True
    have "opp_loop rec board pits alpha beta beta best_move =
        first_min (map (\<lambda>i. (i, cv i)) (filter (\<lambda>i. board ! i \<noteq> 0) pits)) beta best_move"
      using Cons.prems by (intro Cons.IH) simp_all
    with True show ?thesis by simp
  next
    case False
    define r where "r = rec (fst (play_move board i)) (\<not> snd (play_move board i)) alpha beta"
    have w: "within_window alpha beta (cv i) r"
      unfolding r_def using False Cons.prems(3) by (intro Cons.prems(1)) simp_all
    have va: "alpha < cv i"
      using False by (intro Cons.prems(2)) simp_all
    show ?thesis
    proof (cases "beta \<le> cv i")
      case True
      with w have rb: "beta \<le> r" by (simp add: within_window_def)
      have "opp_loop rec board pits alpha beta beta best_move =
          first_min (map (\<lambda>i. (i, cv i)) (filter (\<lambda>i. board ! i \<noteq> 0) pits)) beta best_move"
        using Cons.prems by (intro Cons.IH) simp_all
      moreover have "opp_loop rec board (i # pits) alpha beta beta best_move =
          opp_loop rec board pits alpha beta beta best_move"
      proof -
        have "min beta r = beta" "\<not> r < beta" "\<not> beta \<le> alpha"
          using rb Cons.prems(3) by simp_all
        then show ?thesis
          using False unfolding r_def by (simp add: Let_def split_def)
      qed
      ultimately show ?thesis
        using False True by simp
    next
      case lt: False
      with w va have rv: "r = cv i" by (simp add: within_window_def)
      have "opp_loop rec board pits alpha (cv i) (cv i) (int i) =
          first_min (map (\<lambda>i. (i, cv i)) (filter (\<lambda>i. board ! i \<noteq> 0) pits)) (cv i) (int i)"
        using Cons.prems(1,2) lt va by (intro Cons.IH) simp_all
      moreover have "opp_loop rec board (i # pits) alpha beta beta best_move =
          opp_loop rec board pits alpha (cv i) (cv i) (int i)"
      proof -
        have "min beta r = cv i" "r < beta" "\<not> cv i \<le> alpha" "r = cv i"
          using lt va rv by simp_all
        then show ?thesis
          using False unfolding r_def by (simp add: Let_def split_def)
      qed
      ultimately show ?thesis
        using False lt by simp
    qed
  qed
qed


lemma first_max_first_best:
  assumes "first_max scores e0 (- 1) = (e, m)" and "m \<noteq> - 1"
  shows "first_best True scores e m"
  using first_max_split [OF assms(1)] assms(2)
  unfolding first_best_def by auto

lemma first_min_first_best:
  assumes "first_min scores e0 (- 1) = (e, m)" and "m \<noteq> - 1"
  shows "first_best False scores e m"
  using first_min_split [OF assms(1)] assms(2)
  unfolding first_best_def by auto

lemma minimax_root_ac:
  assumes "length board = 14" and "total board \<le> 98"
  shows "ac_loop (\<lambda>b t a be. fst (minimax b t depth None a be)) board AC_PITS
           (- 99) 99 (- 99) (- 1)
       = first_max (plain_scores board True depth) (- 99) (- 1)"
proof -
  let ?rec = "\<lambda>b t a be. fst (minimax b t depth None a be)"
  let ?cv = "\<lambda>i. plain_minimax (fst (play_move board i)) (snd (play_move board i)) depth"
  have t255: "total board \<le> 255" using assms(2) by simp
  have child: "length (fst (play_move board i)) = 14 \<and> total (fst (play_move board i)) \<le> 98"
    if "i \<in> set AC_PITS" "board ! i \<noteq> 0" for i
    using play_move_child [OF assms(1) AC_PITS_less [OF that(1)] that(2) t255] assms(2)
    by simp
  have ch: "within_window a 99 (?cv i)
      (?rec (fst (play_move board i)) (snd (play_move board i)) a 99)"
    if "i \<in> set AC_PITS" "board ! i \<noteq> 0" "- 99 \<le> a" "a < 99" for i a
    using child [OF that(1,2)] that(3,4) by (intro minimax_window) simp_all
  have vb: "?cv i < 99" if "i \<in> set AC_PITS" "board ! i \<noteq> 0" for i
  proof -
    from child [OF that]
    have "\<bar>?cv i\<bar> \<le> int (total (fst (play_move board i)))"
      by (intro plain_minimax_bound) simp_all
    with child [OF that] show ?thesis by linarith
  qed
  have "ac_loop ?rec board AC_PITS (- 99) 99 (- 99) (- 1) =
      first_max (map (\<lambda>i. (i, ?cv i)) (filter (\<lambda>i. board ! i \<noteq> 0) AC_PITS)) (- 99) (- 1)"
    using ch vb by (intro ac_loop_root) simp_all
  then show ?thesis
    by (simp add: plain_scores_def)
qed

lemma minimax_root_opp:
  assumes "length board = 14" and "total board \<le> 98"
  shows "opp_loop (\<lambda>b t a be. fst (minimax b t depth None a be)) board OPP_PITS
           (- 99) 99 99 (- 1)
       = first_min (plain_scores board False depth) 99 (- 1)"
proof -
  let ?rec = "\<lambda>b t a be. fst (minimax b t depth None a be)"
  let ?cv = "\<lambda>i. plain_minimax (fst (play_move board i)) (\<not> snd (play_move board i)) depth"
  have t255: "total board \<le> 255" using assms(2) by simp
  have child: "length (fst (play_move board i)) = 14 \<and> total (fst (play_move board i)) \<le> 98"
    if "i \<in> set OPP_PITS" "board ! i \<noteq> 0" for i
    using play_move_child [OF assms(1) OPP_PITS_less [OF that(1)] that(2) t255] assms(2)
    by simp
  have ch: "within_window (- 99) be (?cv i)
      (?rec (fst (play_move board i)) (\<not> snd (play_move board i)) (- 99) be)"
    if "i \<in> set OPP_PITS" "board ! i \<noteq> 0" "be \<le> 99" "- 99 < be" for i be
    using child [OF that(1,2)] that(3,4) by (intro minimax_window) simp_all
  have vb: "- 99 < ?cv i" if "i \<in> set OPP_PITS" "board ! i \<noteq> 0" for i
  proof -
    from child [OF that]
    have "\<bar>?cv i\<bar> \<le> int (total (fst (play_move board i)))"
      by (intro plain_minimax_bound) simp_all
    with child [OF that] show ?thesis by linarith
  qed
  have "opp_loop ?rec board OPP_PITS (- 99) 99 99 (- 1) =
      first_min (map (\<lambda>i. (i, ?cv i)) (filter (\<lambda>i. board ! i \<noteq> 0) OPP_PITS)) 99 (- 1)"
    using ch vb by (intro opp_loop_root) simp_all
  then show ?thesis
    by (simp add: plain_scores_def)
qed

lemma first_max_sentinel:
  assumes "first_max scores e0 (- 1) = (e, m)"
  shows "m = - 1 \<longleftrightarrow> (\<forall>x\<in>set scores. snd x \<le> e0)"
proof
  assume "m = - 1"
  with first_max_split [OF assms] show "\<forall>x\<in>set scores. snd x \<le> e0"
    by auto
next
  assume a: "\<forall>x\<in>set scores. snd x \<le> e0"
  from first_max_split [OF assms] show "m = - 1"
  proof
    assume "e = e0 \<and> m = - 1 \<and> (\<forall>x\<in>set scores. snd x \<le> e0)"
    then show ?thesis by simp
  next
    assume "\<exists>pre i post. scores = pre @ (i, e) # post \<and> m = int i \<and> e0 < e
           \<and> (\<forall>x\<in>set pre. snd x < e) \<and> (\<forall>x\<in>set post. snd x \<le> e)"
    then obtain pre i post where "scores = pre @ (i, e) # post" "e0 < e"
      by blast
    with a have False by fastforce
    then show ?thesis ..
  qed
qed

lemma first_min_sentinel:
  assumes "first_min scores e0 (- 1) = (e, m)"
  shows "m = - 1 \<longleftrightarrow> (\<forall>x\<in>set scores. e0 \<le> snd x)"
proof
  assume "m = - 1"
  with first_min_split [OF assms] show "\<forall>x\<in>set scores. e0 \<le> snd x"
    by auto
next
  assume a: "\<forall>x\<in>set scores. e0 \<le> snd x"
  from first_min_split [OF assms] show "m = - 1"
  proof
    assume "e = e0 \<and> m = - 1 \<and> (\<forall>x\<in>set scores. e0 \<le> snd x)"
    then show ?thesis by simp
  next
    assume "\<exists>pre i post. scores = pre @ (i, e) # post \<and> m = int i \<and> e < e0
           \<and> (\<forall>x\<in>set pre. e < snd x) \<and> (\<forall>x\<in>set post. e \<le> snd x)"
    then obtain pre i post where "scores = pre @ (i, e) # post" "e < e0"
      by blast
    with a have False by fastforce
    then show ?thesis ..
  qed
qed

lemma ac_scores_bounded:
  assumes "length board = 14" and "total board \<le> 98"
  shows "\<forall>x\<in>set (ac_scores (\<lambda>b t a be. fst (minimax b t d None a be)) board AC_PITS
      alpha beta). \<bar>snd x\<bar> \<le> 98"
proof (rule ac_scores_all)
  fix i a
  assume i: "i \<in> set AC_PITS" "board ! i \<noteq> 0"
  from assms(2) have "total board \<le> 255" by simp
  from play_move_child [OF assms(1) AC_PITS_less [OF i(1)] i(2) this]
  have c: "length (fst (play_move board i)) = 14" "total (fst (play_move board i)) = total board"
    by simp_all
  with assms(2) have "\<bar>fst (minimax (fst (play_move board i)) (snd (play_move board i)) d
      None a beta)\<bar> \<le> int (total (fst (play_move board i)))"
    by (intro minimax_bound) simp_all
  with c assms(2) show "\<bar>fst (minimax (fst (play_move board i)) (snd (play_move board i)) d
      None a beta)\<bar> \<le> 98"
    by linarith
qed

lemma opp_scores_bounded:
  assumes "length board = 14" and "total board \<le> 98"
  shows "\<forall>x\<in>set (opp_scores (\<lambda>b t a be. fst (minimax b t d None a be)) board OPP_PITS
      alpha beta). \<bar>snd x\<bar> \<le> 98"
proof (rule opp_scores_all)
  fix i be
  assume i: "i \<in> set OPP_PITS" "board ! i \<noteq> 0"
  from assms(2) have "total board \<le> 255" by simp
  from play_move_child [OF assms(1) OPP_PITS_less [OF i(1)] i(2) this]
  have c: "length (fst (play_move board i)) = 14" "total (fst (play_move board i)) = total board"
    by simp_all
  with assms(2) have "\<bar>fst (minimax (fst (play_move board i)) (\<not> snd (play_move board i)) d
      None alpha be)\<bar> \<le> int (total (fst (play_move board i)))"
    by (intro minimax_bound) simp_all
  with c assms(2) show "\<bar>fst (minimax (fst (play_move board i)) (\<not> snd (play_move board i)) d
      None alpha be)\<bar> \<le> 98"
    by linarith
qed

lemma minimax_tie_break_ac:
  "\<exists>eval move.
      (\<forall>u. minimax board True (Suc d) (Some u) alpha beta = (eval, Some move))
    \<and> (\<exists>rest. filter (\<lambda>i. board ! i \<noteq> 0) AC_PITS =
          map fst (ac_scores (\<lambda>b t a be. fst (minimax b t d None a be)) board AC_PITS
            alpha beta) @ rest)
    \<and> (move = - 1 \<longleftrightarrow>
          (\<forall>x\<in>set (ac_scores (\<lambda>b t a be. fst (minimax b t d None a be)) board AC_PITS
             alpha beta). snd x \<le> - 99))
    \<and> (move \<noteq> - 1 \<longrightarrow>
          first_best True (ac_scores (\<lambda>b t a be. fst (minimax b t d None a be)) board
            AC_PITS alpha beta) eval move)
    \<and> (length board = 14 \<and> total board \<le> 98 \<longrightarrow>
          (move = - 1 \<longleftrightarrow> filter (\<lambda>i. board ! i \<noteq> 0) AC_PITS = [])
        \<and> (alpha = - 99 \<and> beta = 99 \<and> move \<noteq> - 1 \<longrightarrow>
             first_best True (plain_scores board True d) eval move))"
proof -
  let ?rec = "\<lambda>b t a be. fst (minimax b t d None a be)"
  let ?scores = "ac_scores ?rec board AC_PITS alpha beta"
  let ?playable = "filter (\<lambda>i. board ! i \<noteq> 0) AC_PITS"
  obtain e m where f: "first_max ?scores (- 99) (- 1) = (e, m)"
    by (cases "first_max ?scores (- 99) (- 1)")
  define eval where "eval = (if m = - 1 then sweep_eval board True else e)"
  have 1: "\<forall>u. minimax board True (Suc d) (Some u) alpha beta = (eval, Some m)"
    using f by (simp add: minimax_Suc_ac eval_def del: minimax.simps)
  have 2: "\<exists>rest. ?playable = map fst ?scores @ rest"
    by (rule ac_scores_prefix)
  note 3 = first_max_sentinel [OF f]
  have 4: "first_best True ?scores eval m" if "m \<noteq> - 1"
    using first_max_first_best [OF f that] that by (simp add: eval_def)
  have 5: "m = - 1 \<longleftrightarrow> ?playable = []" if b: "length board = 14" "total board \<le> 98"
  proof
    assume "m = - 1"
    with 3 have a: "\<forall>x\<in>set ?scores. snd x \<le> - 99" by simp
    show "?playable = []"
    proof (rule ccontr)
      assume "?playable \<noteq> []"
      then have "?scores \<noteq> []" by (rule ac_scores_nonempty)
      then obtain x where x: "x \<in> set ?scores" by (cases ?scores) auto
      with ac_scores_bounded [OF b, of d alpha beta] have "\<bar>snd x\<bar> \<le> 98" by blast
      moreover from a x have "snd x \<le> - 99" by blast
      ultimately show False by linarith
    qed
  next
    assume "?playable = []"
    then have "?scores = []" by (rule ac_scores_empty)
    with 3 show "m = - 1" by simp
  qed
  have 6: "first_best True (plain_scores board True d) eval m"
    if b: "length board = 14" "total board \<le> 98" and w: "alpha = - 99" "beta = 99"
      and n: "m \<noteq> - 1"
  proof -
    from f have "ac_loop ?rec board AC_PITS alpha beta (- 99) (- 1) = (e, m)"
      by (simp only: ac_loop_first_max)
    with minimax_root_ac [OF b, of d] w
    have "first_max (plain_scores board True d) (- 99) (- 1) = (e, m)"
      by simp
    from first_max_first_best [OF this n] n show ?thesis
      by (simp add: eval_def)
  qed
  from 1 2 3 4 5 6 show ?thesis
    by blast
qed

lemma minimax_tie_break_opp:
  "\<exists>eval move.
      (\<forall>u. minimax board False (Suc d) (Some u) alpha beta = (eval, Some move))
    \<and> (\<exists>rest. filter (\<lambda>i. board ! i \<noteq> 0) OPP_PITS =
          map fst (opp_scores (\<lambda>b t a be. fst (minimax b t d None a be)) board OPP_PITS
            alpha beta) @ rest)
    \<and> (move = - 1 \<longleftrightarrow>
          (\<forall>x\<in>set (opp_scores (\<lambda>b t a be. fst (minimax b t d None a be)) board OPP_PITS
             alpha beta). 99 \<le> snd x))
    \<and> (move \<noteq> - 1 \<longrightarrow>
          first_best False (opp_scores (\<lambda>b t a be. fst (minimax b t d None a be)) board
            OPP_PITS alpha beta) eval move)
    \<and> (length board = 14 \<and> total board \<le> 98 \<longrightarrow>
          (move = - 1 \<longleftrightarrow> filter (\<lambda>i. board ! i \<noteq> 0) OPP_PITS = [])
        \<and> (alpha = - 99 \<and> beta = 99 \<and> move \<noteq> - 1 \<longrightarrow>
             first_best False (plain_scores board False d) eval move))"
proof -
  let ?rec = "\<lambda>b t a be. fst (minimax b t d None a be)"
  let ?scores = "opp_scores ?rec board OPP_PITS alpha beta"
  let ?playable = "filter (\<lambda>i. board ! i \<noteq> 0) OPP_PITS"
  obtain e m where f: "first_min ?scores 99 (- 1) = (e, m)"
    by (cases "first_min ?scores 99 (- 1)")
  define eval where "eval = (if m = - 1 then sweep_eval board False else e)"
  have 1: "\<forall>u. minimax board False (Suc d) (Some u) alpha beta = (eval, Some m)"
    using f by (simp add: minimax_Suc_opp eval_def del: minimax.simps)
  have 2: "\<exists>rest. ?playable = map fst ?scores @ rest"
    by (rule opp_scores_prefix)
  note 3 = first_min_sentinel [OF f]
  have 4: "first_best False ?scores eval m" if "m \<noteq> - 1"
    using first_min_first_best [OF f that] that by (simp add: eval_def)
  have 5: "m = - 1 \<longleftrightarrow> ?playable = []" if b: "length board = 14" "total board \<le> 98"
  proof
    assume "m = - 1"
    with 3 have a: "\<forall>x\<in>set ?scores. 99 \<le> snd x" by simp
    show "?playable = []"
    proof (rule ccontr)
      assume "?playable \<noteq> []"
      then have "?scores \<noteq> []" by (rule opp_scores_nonempty)
      then obtain x where x: "x \<in> set ?scores" by (cases ?scores) auto
      with opp_scores_bounded [OF b, of d alpha beta] have "\<bar>snd x\<bar> \<le> 98" by blast
      moreover from a x have "99 \<le> snd x" by blast
      ultimately show False by linarith
    qed
  next
    assume "?playable = []"
    then have "?scores = []" by (rule opp_scores_empty)
    with 3 show "m = - 1" by simp
  qed
  have 6: "first_best False (plain_scores board False d) eval m"
    if b: "length board = 14" "total board \<le> 98" and w: "alpha = - 99" "beta = 99"
      and n: "m \<noteq> - 1"
  proof -
    from f have "opp_loop ?rec board OPP_PITS alpha beta 99 (- 1) = (e, m)"
      by (simp only: opp_loop_first_min)
    with minimax_root_opp [OF b, of d] w
    have "first_min (plain_scores board False d) 99 (- 1) = (e, m)"
      by simp
    from first_min_first_best [OF this n] n show ?thesis
      by (simp add: eval_def)
  qed
  from 1 2 3 4 5 6 show ?thesis
    by blast
qed

text \<open>
  C5. At a depth of at least 1 the result of \<open>minimax\<close> is a function of the
  board, the turn, the depth and the window: the evaluation and the move are
  the same whatever the cell behind \<open>move_out\<close> held. The pits are scanned in
  the order 5,4,3,2,1,0 for AlphaCala and 12,11,10,9,8,7 for the opponent: the
  scored pits are the non-empty ones in this order, up to a break. The move is
  -1 exactly when no scored pit has a child score strictly better than the
  initial best evaluation (-99 for AlphaCala, 99 for the opponent); otherwise
  it is the first pit whose child score is the best one, since only a strictly
  better score replaces the best move. On a board of at most 98 seeds a pit is
  returned whenever the side to move has a non-empty pit, and with the initial
  window -99, 99 it is the first pit, in scan order, whose plain minimax value
  is the best one. A pit is not returned for tied playable pits on every
  board: see the counterexample.
\<close>

theorem minimax_tie_break:
  assumes "0 < depth"
  shows "let rec = (\<lambda>b t a be. fst (minimax b t (depth - 1) None a be));
             table = (if is_ac_turn then [5, 4, 3, 2, 1, 0] else [12, 11, 10, 9, 8, 7]);
             scores = (if is_ac_turn then ac_scores rec board table alpha beta
                       else opp_scores rec board table alpha beta);
             playable = filter (\<lambda>i. board ! i \<noteq> 0) table
         in \<exists>eval move.
              (\<forall>u. minimax board is_ac_turn depth (Some u) alpha beta = (eval, Some move))
            \<and> (\<exists>rest. playable = map fst scores @ rest)
            \<and> (move = - 1 \<longleftrightarrow>
                  (\<forall>x\<in>set scores. if is_ac_turn then snd x \<le> - 99 else 99 \<le> snd x))
            \<and> (move \<noteq> - 1 \<longrightarrow> first_best is_ac_turn scores eval move)
            \<and> (length board = 14 \<and> total board \<le> 98 \<longrightarrow>
                  (move = - 1 \<longleftrightarrow> playable = [])
                \<and> (alpha = - 99 \<and> beta = 99 \<and> move \<noteq> - 1 \<longrightarrow>
                     first_best is_ac_turn
                       (plain_scores board is_ac_turn (depth - 1)) eval move))"
proof -
  from assms obtain d where d: "depth = Suc d"
    by (cases depth) auto
  show ?thesis
  proof (cases is_ac_turn)
    case True
    then have t: "is_ac_turn = True" by simp
    from minimax_tie_break_ac [of board d alpha beta] show ?thesis
      unfolding Let_def d diff_Suc_1 t if_True AC_PITS_def .
  next
    case False
    then have t: "is_ac_turn = False" by simp
    from minimax_tie_break_opp [of board d alpha beta] show ?thesis
      unfolding Let_def d diff_Suc_1 t if_False OPP_PITS_def .
  qed
qed

theorem minimax_tie_break_witness:
  "minimax [4,4,4,4,4,4,0,4,4,4,4,4,4,0] True 1 (Some 7) (- 99) 99 = (1, Some 5)
   \<and> plain_scores [4,4,4,4,4,4,0,4,4,4,4,4,4,0] True 0
       = [(5, 1), (4, 1), (3, 1), (2, 1), (1, 0), (0, 0)]
   \<and> first_best True (plain_scores [4,4,4,4,4,4,0,4,4,4,4,4,4,0] True 0) 1 5"
proof -
  let ?b = "[4,4,4,4,4,4,0,4,4,4,4,4,4,0] :: board_type"
  have m: "minimax ?b True 1 (Some 7) (- 99) 99 = (1, Some 5)"
    by code_simp
  have p: "plain_scores ?b True 0 = [(5, 1), (4, 1), (3, 1), (2, 1), (1, 0), (0, 0)]"
    by code_simp
  have h: "length ?b = 14 \<and> total ?b \<le> 98"
    by (simp add: total_def)
  have "(0::nat) < 1" by simp
  from minimax_tie_break [OF this, of True ?b "- 99" 99]
  obtain eval move where
    a: "\<forall>u. minimax ?b True 1 (Some u) (- 99) 99 = (eval, Some move)"
    and b: "length ?b = 14 \<and> total ?b \<le> 98 \<longrightarrow>
        (move = - 1 \<longleftrightarrow> filter (\<lambda>i. ?b ! i \<noteq> 0) [5, 4, 3, 2, 1, 0] = [])
      \<and> ((- 99 :: int) = - 99 \<and> (99 :: int) = 99 \<and> move \<noteq> - 1 \<longrightarrow>
           first_best True (plain_scores ?b True (1 - 1)) eval move)"
    unfolding Let_def if_True by blast
  from a m have e: "eval = 1" "move = 5"
    by (simp_all del: minimax.simps)
  with b h have "first_best True (plain_scores ?b True (1 - 1)) 1 5"
    by simp
  then have "first_best True (plain_scores ?b True 0) 1 5"
    by simp
  with m p show ?thesis
    by (intro conjI)
qed

theorem minimax_tie_break_counterexample:
  "[1,1,0,0,0,0,0,0,0,0,0,0,0,200::u8] ! 1 \<noteq> 0
   \<and> [1,1,0,0,0,0,0,0,0,0,0,0,0,200::u8] ! 0 \<noteq> 0
   \<and> ac_scores (\<lambda>b t a be. fst (minimax b t 0 None a be))
        [1,1,0,0,0,0,0,0,0,0,0,0,0,200] [5, 4, 3, 2, 1, 0] (- 99) 99
       = [(1, - 200), (0, - 200)]
   \<and> minimax [1,1,0,0,0,0,0,0,0,0,0,0,0,200] True 1 (Some 0) (- 99) 99
       = (- 200, Some (- 1))"
  by code_simp

end
